theory Spec2Isabelle
  imports Complex_Main "HOL-Library.Word" "HOL-Library.Multiset"
begin

unbundle bit_operations_syntax

section \<open>The hash table of HashMap.hpp\<close>

text \<open>
  A shallow embedding of the class template \<open>HashMap\<close> (HashMap.hpp) and of the class
  \<open>Dictionary\<close> (Dictionary.hpp). A member function becomes a function of the table;
  one that changes the table returns the new table, one that throws returns a sum with the
  exception on the left. The names are the source's. Where a name is taken in Isabelle
  it carries the suffix \<open>_hm\<close> (\<open>insert\<close>, \<open>at\<close>, \<open>size\<close>, \<open>empty\<close>,
  \<open>begin\<close>, \<open>end\<close>), the operators are spelled out (\<open>operator_eq\<close>,
  \<open>operator_neq\<close>, \<open>assign\<close>, \<open>index_access\<close>, \<open>increment\<close>,
  \<open>dereference\<close>), and the loops inside a function are named after it.
\<close>

subsection \<open>Constants and errors\<close>

definition INITIAL_SIZE :: int where
  "INITIAL_SIZE = 0"

definition INITIAL_CAPACITY :: nat where
  "INITIAL_CAPACITY = 16"

definition MIN_CAPACITY :: nat where
  "MIN_CAPACITY = 1"

definition UPPER_LOAD_FACTOR :: rat where
  "UPPER_LOAD_FACTOR = 3 / 4"

definition LOWER_LOAD_FACTOR :: rat where
  "LOWER_LOAD_FACTOR = 1 / 4"

definition INVALID_KEY_MSG :: string where
  "INVALID_KEY_MSG = ''Key not found''"

definition INVALID_VECTOR_LENGTHS_ERR_MSG :: string where
  "INVALID_VECTOR_LENGTHS_ERR_MSG =
     ''Error: The length of the received vectors is not equal''"

definition INVALID_KEY :: string where
  "INVALID_KEY = ''invalid key''"

text \<open>
  The exceptions the two headers throw: \<open>std::runtime_error\<close> with a message (from
  \<open>at\<close> and from the two-vector constructor) and the class \<open>InvalidKey\<close> of
  Dictionary.hpp, which also carries its message.
\<close>

datatype error = runtime_error string | InvalidKey string

text \<open>The specification's names for the three error kinds.\<close>

abbreviation KeyNotFound :: error where
  "KeyNotFound \<equiv> runtime_error INVALID_KEY_MSG"

abbreviation LengthMismatch :: error where
  "LengthMismatch \<equiv> runtime_error INVALID_VECTOR_LENGTHS_ERR_MSG"

subsection \<open>Table state\<close>

text \<open>
  The three data members of \<open>HashMap<KeyT, ValueT>\<close>: \<open>_map\<close> (an array of
  \<open>_capacity\<close> vectors of pairs), \<open>_size\<close> and \<open>_capacity\<close>. The member
  \<open>hash_func\<close> is a stateless \<open>std::hash<KeyT>\<close>; it is the parameter \<open>hf\<close> of
  every operation below and returns a \<open>size_t\<close>, a 64-bit word.

  \<open>_size\<close> is an \<open>int\<close> that the code increments and decrements; \<open>_capacity\<close> is
  an \<open>int\<close> that is only ever set to 16, doubled, halved while above 1, or copied from
  another table, so it is modelled as a natural number. Both are taken unbounded: the
  32-bit \<open>int\<close> of the source would need more than \<open>2 ^ 30\<close> buckets to overflow.
\<close>

record ('k, 'v) hash_map =
  hm_map :: "('k \<times> 'v) list list"
  hm_size :: int
  hm_capacity :: nat

type_synonym 'k hasher = "'k \<Rightarrow> 64 word"

text \<open>
  The accessors \<open>size\<close>, \<open>capacity\<close> and \<open>empty\<close> return the fields; the
  theorems below speak of the fields.
\<close>

definition size_hm :: "('k, 'v) hash_map \<Rightarrow> int" where
  "size_hm t = hm_size t"

definition capacity :: "('k, 'v) hash_map \<Rightarrow> nat" where
  "capacity t = hm_capacity t"

definition empty_hm :: "('k, 'v) hash_map \<Rightarrow> bool" where
  "empty_hm t = (hm_size t = INITIAL_SIZE)"

text \<open>
  \<open>get_load_factor\<close> divides as \<open>double\<close>. The two thresholds 0.75 and 0.25 are
  exactly representable and rounding is monotone; a quotient of two 32-bit operands that
  differs from a threshold differs from it by at least \<open>1 / (4 * capacity)\<close>, which is
  more than \<open>2 ^ -33\<close> and far more than the spacing of the doubles around the
  threshold. So every comparison the code makes has the same outcome on the exact quotient,
  which is what the model computes. (With capacity 0 the source would divide by zero; no
  constructor produces that capacity.)
\<close>

definition get_load_factor :: "('k, 'v) hash_map \<Rightarrow> rat" where
  "get_load_factor t = of_int (hm_size t) / of_nat (hm_capacity t)"

text \<open>
  \<open>(int) (hash_func (key) & (_capacity - 1))\<close>: the mask is converted to \<open>size_t\<close>,
  the result is at most the mask and so fits the \<open>int\<close> it is cast to. It is below
  \<open>_capacity\<close> whenever that is positive (lemma \<open>get_hash_index_less\<close>), so in a
  table with \<open>_capacity\<close> buckets every \<open>_map[index]\<close> of the source is in range;
  out of range it would be undefined behaviour, and the invariant \<open>invar\<close> below rules
  that out.
\<close>

definition get_hash_index :: "'k hasher \<Rightarrow> ('k, 'v) hash_map \<Rightarrow> 'k \<Rightarrow> nat" where
  "get_hash_index hf t key = unat (hf key AND of_nat (hm_capacity t - 1))"

subsection \<open>Rehashing\<close>

text \<open>\<open>_map[index].push_back (element)\<close> with \<open>index\<close> the element's hash index.\<close>

definition push_element :: "'k hasher \<Rightarrow> ('k \<times> 'v) \<Rightarrow> ('k, 'v) hash_map \<Rightarrow> ('k, 'v) hash_map" where
  "push_element hf element t =
     (let index = get_hash_index hf t (fst element)
      in t\<lparr>hm_map := (hm_map t)[index := hm_map t ! index @ [element]]\<rparr>)"

text \<open>
  \<open>move_elements_from\<close>: the outer loop over \<open>i = 0 .. old_size - 1\<close>, the inner
  range-for over \<open>old_map[i]\<close>.
\<close>

definition move_elements_from ::
  "'k hasher \<Rightarrow> ('k \<times> 'v) list list \<Rightarrow> nat \<Rightarrow> ('k, 'v) hash_map \<Rightarrow> ('k, 'v) hash_map" where
  "move_elements_from hf old_map old_size t =
     fold (\<lambda>i. fold (push_element hf) (old_map ! i)) [0..<old_size] t"

text \<open>
  \<open>resize_map\<close> is called after \<open>_capacity\<close> has been changed: it allocates
  \<open>_capacity\<close> empty buckets and moves the old elements over.
\<close>

definition resize_map :: "'k hasher \<Rightarrow> nat \<Rightarrow> ('k, 'v) hash_map \<Rightarrow> ('k, 'v) hash_map" where
  "resize_map hf old_size t =
     (let old_map = hm_map t
      in move_elements_from hf old_map old_size
           (t\<lparr>hm_map := replicate (hm_capacity t) []\<rparr>))"

lemma hm_size_push_element [simp]: "hm_size (push_element hf e t) = hm_size t"
  by (simp add: push_element_def Let_def)

lemma hm_capacity_push_element [simp]: "hm_capacity (push_element hf e t) = hm_capacity t"
  by (simp add: push_element_def Let_def)

lemma length_push_element [simp]: "length (hm_map (push_element hf e t)) = length (hm_map t)"
  by (simp add: push_element_def Let_def)

lemma hm_size_fold_push [simp]: "hm_size (fold (push_element hf) es t) = hm_size t"
  by (induction es arbitrary: t) simp_all

lemma hm_capacity_fold_push [simp]:
  "hm_capacity (fold (push_element hf) es t) = hm_capacity t"
  by (induction es arbitrary: t) simp_all

lemma length_fold_push [simp]:
  "length (hm_map (fold (push_element hf) es t)) = length (hm_map t)"
  by (induction es arbitrary: t) simp_all

lemma hm_size_move [simp]: "hm_size (move_elements_from hf om n t) = hm_size t"
  unfolding move_elements_from_def by (induction n) simp_all

lemma hm_capacity_move [simp]:
  "hm_capacity (move_elements_from hf om n t) = hm_capacity t"
  unfolding move_elements_from_def by (induction n) simp_all

lemma length_move [simp]:
  "length (hm_map (move_elements_from hf om n t)) = length (hm_map t)"
  unfolding move_elements_from_def by (induction n) simp_all

lemma hm_size_resize_map [simp]: "hm_size (resize_map hf n t) = hm_size t"
  by (simp add: resize_map_def Let_def)

lemma hm_capacity_resize_map [simp]: "hm_capacity (resize_map hf n t) = hm_capacity t"
  by (simp add: resize_map_def Let_def)

lemma length_resize_map [simp]: "length (hm_map (resize_map hf n t)) = hm_capacity t"
  by (simp add: resize_map_def Let_def)


subsection \<open>Resizing\<close>

text \<open>
  The first \<open>while\<close> loop of \<open>handle_resize\<close>: double \<open>_capacity\<close> and rehash
  while the load factor exceeds the upper threshold (only when \<open>increase\<close>).
\<close>

function handle_resize_grow ::
  "'k hasher \<Rightarrow> bool \<Rightarrow> ('k, 'v) hash_map \<Rightarrow> ('k, 'v) hash_map" where
  "handle_resize_grow hf increase t =
     (if get_load_factor t > UPPER_LOAD_FACTOR \<and> increase
      then handle_resize_grow hf increase
             (resize_map hf (hm_capacity t) (t\<lparr>hm_capacity := hm_capacity t * 2\<rparr>))
      else t)"
  by pat_completeness auto
termination
proof (relation "measure (\<lambda>(hf, increase, t). nat (4 * hm_size t - 3 * int (hm_capacity t)))")
  show "wf (measure (\<lambda>(hf :: 'a hasher, increase :: bool, t :: ('a, 'b) hash_map).
              nat (4 * hm_size t - 3 * int (hm_capacity t))))"
    by simp
next
  fix hf :: "'a hasher" and increase :: bool and t :: "('a, 'b) hash_map"
  assume "UPPER_LOAD_FACTOR < get_load_factor t \<and> increase"
  then have gt: "3 / 4 < (of_int (hm_size t) :: rat) / of_nat (hm_capacity t)"
    by (simp add: UPPER_LOAD_FACTOR_def get_load_factor_def)
  have pos: "0 < hm_capacity t"
  proof (rule ccontr)
    assume "\<not> 0 < hm_capacity t"
    with gt show False by simp
  qed
  then have "(3 :: rat) * of_nat (hm_capacity t) < 4 * of_int (hm_size t)"
    using gt by (simp add: field_simps)
  then have "(of_int (3 * int (hm_capacity t)) :: rat) < of_int (4 * hm_size t)"
    by simp
  then have "3 * int (hm_capacity t) < 4 * hm_size t"
    by (simp only: of_int_less_iff)
  with pos show "((hf, increase,
                   resize_map hf (hm_capacity t) (t\<lparr>hm_capacity := hm_capacity t * 2\<rparr>)),
                  (hf, increase, t))
                 \<in> measure (\<lambda>(hf, increase, t). nat (4 * hm_size t - 3 * int (hm_capacity t)))"
    by simp
qed

text \<open>
  The second loop: halve \<open>_capacity\<close> and rehash while the load factor is below the
  lower threshold and the capacity is above the minimum (only when not \<open>increase\<close>).
\<close>

function handle_resize_shrink ::
  "'k hasher \<Rightarrow> bool \<Rightarrow> ('k, 'v) hash_map \<Rightarrow> ('k, 'v) hash_map" where
  "handle_resize_shrink hf increase t =
     (if get_load_factor t < LOWER_LOAD_FACTOR \<and> \<not> increase \<and> hm_capacity t > MIN_CAPACITY
      then handle_resize_shrink hf increase
             (resize_map hf (hm_capacity t) (t\<lparr>hm_capacity := hm_capacity t div 2\<rparr>))
      else t)"
  by pat_completeness auto
termination
  by (relation "measure (\<lambda>(hf, increase, t). hm_capacity t)")
     (simp_all add: MIN_CAPACITY_def)

declare handle_resize_grow.simps [simp del]

declare handle_resize_shrink.simps [simp del]

definition handle_resize ::
  "'k hasher \<Rightarrow> bool \<Rightarrow> ('k, 'v) hash_map \<Rightarrow> ('k, 'v) hash_map" where
  "handle_resize hf increase t =
     handle_resize_shrink hf increase (handle_resize_grow hf increase t)"

subsection \<open>Construction, lookup, insertion and removal\<close>

text \<open>The default constructor.\<close>

definition HashMap :: "('k, 'v) hash_map" where
  "HashMap = \<lparr>hm_map = replicate INITIAL_CAPACITY [],
              hm_size = INITIAL_SIZE,
              hm_capacity = INITIAL_CAPACITY\<rparr>"

text \<open>
  The scan \<open>for (element: _map[index]) if (key == element.first) return ...\<close> that
  \<open>insert\<close> and \<open>contains_key\<close> both run over the key's bucket.
\<close>

primrec key_in_bucket :: "'k \<Rightarrow> ('k \<times> 'v) list \<Rightarrow> bool" where
  "key_in_bucket key [] = False"
| "key_in_bucket key (element # rest) =
     (if key = fst element then True else key_in_bucket key rest)"

definition contains_key :: "'k hasher \<Rightarrow> ('k, 'v) hash_map \<Rightarrow> 'k \<Rightarrow> bool" where
  "contains_key hf t key =
     (let index = get_hash_index hf t key in key_in_bucket key (hm_map t ! index))"

text \<open>
  \<open>insert\<close> returns its flag and the table after the call.
\<close>

definition insert_hm ::
  "'k hasher \<Rightarrow> 'k \<Rightarrow> 'v \<Rightarrow> ('k, 'v) hash_map \<Rightarrow> bool \<times> ('k, 'v) hash_map" where
  "insert_hm hf key val t =
     (let index = get_hash_index hf t key
      in if key_in_bucket key (hm_map t ! index) then (False, t)
         else
           (let element_to_insert = (key, val);
                t1 = t\<lparr>hm_map := (hm_map t)[index := hm_map t ! index @ [element_to_insert]]\<rparr>;
                t2 = t1\<lparr>hm_size := hm_size t1 + 1\<rparr>
            in (True, handle_resize hf True t2)))"

text \<open>
  \<open>at\<close>: the scan returns the first matching element's value, and the function throws
  \<open>runtime_error (INVALID_KEY_MSG)\<close> after the loop.
\<close>

primrec at_bucket :: "'k \<Rightarrow> ('k \<times> 'v) list \<Rightarrow> error + 'v" where
  "at_bucket key [] = Inl (runtime_error INVALID_KEY_MSG)"
| "at_bucket key (element # rest) =
     (if key = fst element then Inr (snd element) else at_bucket key rest)"

definition at_hm :: "'k hasher \<Rightarrow> ('k, 'v) hash_map \<Rightarrow> 'k \<Rightarrow> error + 'v" where
  "at_hm hf t key =
     (let index = get_hash_index hf t key in at_bucket key (hm_map t ! index))"

text \<open>
  The loop \<open>for (j = 0; j < _map[index].size (); ++j)\<close> of \<open>erase\<close>, up to the
  position it stops at.
\<close>

function erase_scan :: "'k \<Rightarrow> ('k \<times> 'v) list \<Rightarrow> nat \<Rightarrow> nat option" where
  "erase_scan key bucket j =
     (if j < length bucket
      then (if key = fst (bucket ! j) then Some j else erase_scan key bucket (j + 1))
      else None)"
  by pat_completeness auto
termination
  by (relation "measure (\<lambda>(key, bucket, j). length bucket - j)") simp_all

declare erase_scan.simps [simp del]

text \<open>\<open>v.erase (v.begin () + j)\<close> on a vector.\<close>

definition vector_erase :: "'a list \<Rightarrow> nat \<Rightarrow> 'a list" where
  "vector_erase v j = take j v @ drop (Suc j) v"

definition erase ::
  "'k hasher \<Rightarrow> 'k \<Rightarrow> ('k, 'v) hash_map \<Rightarrow> bool \<times> ('k, 'v) hash_map" where
  "erase hf key t =
     (let index = get_hash_index hf t key
      in case erase_scan key (hm_map t ! index) 0 of
           Some j \<Rightarrow>
             (let t1 = t\<lparr>hm_map := (hm_map t)[index := vector_erase (hm_map t ! index) j]\<rparr>;
                  t2 = t1\<lparr>hm_size := hm_size t1 - 1\<rparr>
              in (True, handle_resize hf False t2))
         | None \<Rightarrow> (False, t))"

definition bucket_size :: "'k hasher \<Rightarrow> ('k, 'v) hash_map \<Rightarrow> 'k \<Rightarrow> error + int" where
  "bucket_size hf t key =
     (case at_hm hf t key of
        Inl e \<Rightarrow> Inl e
      | Inr _ \<Rightarrow> (let index = get_hash_index hf t key in Inr (int (length (hm_map t ! index)))))"

definition bucket_index :: "'k hasher \<Rightarrow> ('k, 'v) hash_map \<Rightarrow> 'k \<Rightarrow> error + int" where
  "bucket_index hf t key =
     (case at_hm hf t key of
        Inl e \<Rightarrow> Inl e
      | Inr _ \<Rightarrow> Inr (int (get_hash_index hf t key)))"

definition clear :: "('k, 'v) hash_map \<Rightarrow> ('k, 'v) hash_map" where
  "clear t = t\<lparr>hm_size := INITIAL_SIZE, hm_map := replicate (hm_capacity t) []\<rparr>"


subsection \<open>The forward iterator\<close>

text \<open>
  A \<open>ConstIterator\<close> holds a pointer to its table and the two cursors. The table is
  passed to each iterator operation, so the record keeps the cursors; iterators are only
  ever compared with iterators of the same table.
\<close>

record ConstIterator =
  map_index :: nat
  element_index :: nat

text \<open>
  \<open>get_next_index_with_elements\<close>: the loop \<open>for (i = curr_index + 1; i < _capacity; ++i)\<close>
  from a given \<open>i\<close>, and the function that starts it.
\<close>

function next_index_loop :: "('k, 'v) hash_map \<Rightarrow> nat \<Rightarrow> nat" where
  "next_index_loop t i =
     (if i < hm_capacity t
      then (if hm_map t ! i \<noteq> [] then i else next_index_loop t (i + 1))
      else hm_capacity t)"
  by pat_completeness auto
termination
  by (relation "measure (\<lambda>(t, i). hm_capacity t - i)") simp_all

declare next_index_loop.simps [simp del]

definition get_next_index_with_elements :: "('k, 'v) hash_map \<Rightarrow> nat \<Rightarrow> nat" where
  "get_next_index_with_elements t curr_index = next_index_loop t (curr_index + 1)"

definition cbegin :: "('k, 'v) hash_map \<Rightarrow> ConstIterator" where
  "cbegin t =
     (let map_index = get_next_index_with_elements t 0
      in \<lparr>map_index = map_index, element_index = 0\<rparr>)"

definition cend :: "('k, 'v) hash_map \<Rightarrow> ConstIterator" where
  "cend t = \<lparr>map_index = hm_capacity t, element_index = 0\<rparr>"

definition begin_hm :: "('k, 'v) hash_map \<Rightarrow> ConstIterator" where
  "begin_hm t = cbegin t"

definition end_hm :: "('k, 'v) hash_map \<Rightarrow> ConstIterator" where
  "end_hm t = cend t"

text \<open>The prefix \<open>operator++\<close> and \<open>operator*\<close>.\<close>

definition increment :: "('k, 'v) hash_map \<Rightarrow> ConstIterator \<Rightarrow> ConstIterator" where
  "increment t it =
     (if element_index it + 1 \<ge> length (hm_map t ! map_index it)
      then \<lparr>map_index = get_next_index_with_elements t (map_index it), element_index = 0\<rparr>
      else it\<lparr>element_index := element_index it + 1\<rparr>)"

definition dereference :: "('k, 'v) hash_map \<Rightarrow> ConstIterator \<Rightarrow> 'k \<times> 'v" where
  "dereference t it = hm_map t ! map_index it ! element_index it"

lemma next_index_loop_le: "next_index_loop t i \<le> max i (hm_capacity t)"
  by (induction t i rule: next_index_loop.induct) (subst next_index_loop.simps, simp)

lemma next_index_loop_ge: "i < hm_capacity t \<Longrightarrow> i \<le> next_index_loop t i"
proof (induction t i rule: next_index_loop.induct)
  case (1 t i)
  show ?case
  proof (cases "hm_map t ! i \<noteq> []")
    case True
    with "1.prems" show ?thesis by (subst next_index_loop.simps) simp
  next
    case False
    show ?thesis
    proof (cases "i + 1 < hm_capacity t")
      case True
      with False "1.prems" "1.IH" have "i + 1 \<le> next_index_loop t (i + 1)" by simp
      with False "1.prems" show ?thesis by (subst next_index_loop.simps) simp
    next
      case False2: False
      then have "next_index_loop t (i + 1) = hm_capacity t"
        by (subst next_index_loop.simps) simp
      with False "1.prems" show ?thesis by (subst next_index_loop.simps) simp
    qed
  qed
qed

lemma next_index_loop_beyond: "hm_capacity t \<le> i \<Longrightarrow> next_index_loop t i = hm_capacity t"
  by (subst next_index_loop.simps) simp

text \<open>
  The traversal \<open>for (const auto &element: hm)\<close>: from an iterator, the elements visited
  until the iterator equals \<open>end ()\<close>. Reading outside the bucket array or outside a
  bucket is undefined behaviour in the source and \<open>None\<close> here.
\<close>

function range_for :: "('k, 'v) hash_map \<Rightarrow> ConstIterator \<Rightarrow> ('k \<times> 'v) list option" where
  "range_for t it =
     (if it = end_hm t then Some []
      else if map_index it < length (hm_map t)
              \<and> element_index it < length (hm_map t ! map_index it)
           then map_option (Cons (dereference t it)) (range_for t (increment t it))
           else None)"
  by pat_completeness auto
termination
proof (relation "measures
         [\<lambda>(t, it). if map_index it < hm_capacity t then 2 + hm_capacity t - map_index it
                     else if it = end_hm t then 0 else 1,
          \<lambda>(t, it). length (hm_map t ! map_index it) - element_index it]")
  show "wf (measures
         [\<lambda>(t :: ('a, 'b) hash_map, it). if map_index it < hm_capacity t
                     then 2 + hm_capacity t - map_index it
                     else if it = end_hm t then 0 else 1,
          \<lambda>(t, it). length (hm_map t ! map_index it) - element_index it])"
    by simp
next
  fix t :: "('a, 'b) hash_map" and it :: ConstIterator
  assume ne: "it \<noteq> end_hm t"
    and ok: "map_index it < length (hm_map t)
             \<and> element_index it < length (hm_map t ! map_index it)"
  let ?n = "next_index_loop t (map_index it + 1)"
  have le: "?n \<le> max (map_index it + 1) (hm_capacity t)"
    by (rule next_index_loop_le)
  show "((t, increment t it), (t, it)) \<in> measures
         [\<lambda>(t, it). if map_index it < hm_capacity t then 2 + hm_capacity t - map_index it
                     else if it = end_hm t then 0 else 1,
          \<lambda>(t, it). length (hm_map t ! map_index it) - element_index it]"
  proof (cases "element_index it + 1 \<ge> length (hm_map t ! map_index it)")
    case False
    with ne ok show ?thesis
      by (auto simp: increment_def end_hm_def cend_def)
  next
    case True
    show ?thesis
    proof (cases "map_index it + 1 < hm_capacity t")
      case lt: True
      then have "map_index it + 1 \<le> ?n" by (rule next_index_loop_ge)
      with le lt True ne show ?thesis
        by (auto simp: increment_def end_hm_def cend_def get_next_index_with_elements_def)
    next
      case ge: False
      then have "?n = hm_capacity t" by (simp add: next_index_loop_beyond)
      with True ne ge show ?thesis
        by (auto simp: increment_def end_hm_def cend_def get_next_index_with_elements_def)
    qed
  qed
qed

declare range_for.simps [simp del]

subsection \<open>Copying, assignment, indexed access and comparison\<close>

text \<open>
  The copy constructor takes the source's capacity and inserts every element its
  traversal of the source visits.
\<close>

definition HashMap_copy :: "'k hasher \<Rightarrow> ('k, 'v) hash_map \<Rightarrow> ('k, 'v) hash_map option" where
  "HashMap_copy hf hm =
     (let t0 = \<lparr>hm_map = replicate (hm_capacity hm) [],
                hm_size = INITIAL_SIZE,
                hm_capacity = hm_capacity hm\<rparr>
      in map_option
           (\<lambda>elements. fold (\<lambda>element t. snd (insert_hm hf (fst element) (snd element) t))
                          elements t0)
           (range_for hm (begin_hm hm)))"

text \<open>
  \<open>operator=\<close> for \<open>this != &hm\<close> (on self-assignment it returns the table as it is).
\<close>

definition assign ::
  "'k hasher \<Rightarrow> ('k, 'v) hash_map \<Rightarrow> ('k, 'v) hash_map \<Rightarrow> ('k, 'v) hash_map option" where
  "assign hf this hm =
     map_option
       (\<lambda>elements. fold (\<lambda>element t. snd (insert_hm hf (fst element) (snd element) t))
                      elements (clear this))
       (range_for hm (begin_hm hm))"

text \<open>
  The non-const \<open>operator[]\<close>: the value found, or after the caught exception the value
  found once \<open>ValueT ()\<close> (the parameter \<open>dflt\<close>) has been inserted.
\<close>

definition index_access ::
  "'k hasher \<Rightarrow> 'v \<Rightarrow> 'k \<Rightarrow> ('k, 'v) hash_map \<Rightarrow> (error + 'v) \<times> ('k, 'v) hash_map" where
  "index_access hf dflt key t =
     (case at_hm hf t key of
        Inr element \<Rightarrow> (Inr element, t)
      | Inl e \<Rightarrow> (let t' = snd (insert_hm hf key dflt t) in (at_hm hf t' key, t')))"

text \<open>
  \<open>at\<close> and \<open>operator[]\<close> return a reference to the stored value; \<open>store_bucket\<close>
  is a write through the reference \<open>at (key)\<close>, which reaches the first element of the
  bucket with that key.
\<close>

primrec store_bucket :: "'k \<Rightarrow> 'v \<Rightarrow> ('k \<times> 'v) list \<Rightarrow> ('k \<times> 'v) list" where
  "store_bucket key val [] = []"
| "store_bucket key val (element # rest) =
     (if key = fst element then (fst element, val) # rest
      else element # store_bucket key val rest)"

definition store_at :: "'k hasher \<Rightarrow> 'k \<Rightarrow> 'v \<Rightarrow> ('k, 'v) hash_map \<Rightarrow> ('k, 'v) hash_map" where
  "store_at hf key val t =
     (let index = get_hash_index hf t key
      in t\<lparr>hm_map := (hm_map t)[index := store_bucket key val (hm_map t ! index)]\<rparr>)"

text \<open>
  \<open>operator==\<close>: the loop over the elements the traversal of the left table visits; an
  exception of \<open>rhs.at\<close> is caught and gives \<open>false\<close>.
\<close>

primrec equal_loop :: "'k hasher \<Rightarrow> ('k, 'v) hash_map \<Rightarrow> ('k \<times> 'v) list \<Rightarrow> bool" where
  "equal_loop hf rhs [] = True"
| "equal_loop hf rhs (elem # rest) =
     (case at_hm hf rhs (fst elem) of
        Inl e \<Rightarrow> False
      | Inr v \<Rightarrow> if v \<noteq> snd elem then False else equal_loop hf rhs rest)"

definition operator_eq ::
  "'k hasher \<Rightarrow> ('k, 'v) hash_map \<Rightarrow> ('k, 'v) hash_map \<Rightarrow> bool option" where
  "operator_eq hf this rhs =
     (if hm_size this \<noteq> hm_size rhs then Some False
      else map_option (equal_loop hf rhs) (range_for this (begin_hm this)))"

definition operator_neq ::
  "'k hasher \<Rightarrow> ('k, 'v) hash_map \<Rightarrow> ('k, 'v) hash_map \<Rightarrow> bool option" where
  "operator_neq hf this rhs = map_option Not (operator_eq hf this rhs)"

subsection \<open>The two-vector constructor and Dictionary.hpp\<close>

text \<open>
  The inner loop shared by the two-vector constructor and \<open>Dictionary::update\<close>: every
  element of the bucket with the given key gets the new value when it differs (the
  \<open>continue\<close> ends an iteration of this inner loop only).
\<close>

definition overwrite_values :: "'k \<Rightarrow> 'v \<Rightarrow> ('k \<times> 'v) list \<Rightarrow> ('k \<times> 'v) list" where
  "overwrite_values key val bucket =
     map (\<lambda>element. if key = fst element
                     then (if val \<noteq> snd element then (fst element, val) else element)
                     else element) bucket"

text \<open>One iteration of the outer loop: the inner loop, then the call of \<open>insert\<close>.\<close>

definition overwrite_then_insert ::
  "'k hasher \<Rightarrow> 'k \<Rightarrow> 'v \<Rightarrow> ('k, 'v) hash_map \<Rightarrow> ('k, 'v) hash_map" where
  "overwrite_then_insert hf key val t =
     (let index = get_hash_index hf t key;
          t1 = t\<lparr>hm_map := (hm_map t)[index := overwrite_values key val (hm_map t ! index)]\<rparr>
      in snd (insert_hm hf key val t1))"

definition HashMap_vectors ::
  "'k hasher \<Rightarrow> 'k list \<Rightarrow> 'v list \<Rightarrow> error + ('k, 'v) hash_map" where
  "HashMap_vectors hf keys vals =
     (if length keys \<noteq> length vals then Inl (runtime_error INVALID_VECTOR_LENGTHS_ERR_MSG)
      else Inr (fold (\<lambda>i t. overwrite_then_insert hf (keys ! i) (vals ! i) t)
                  [0..<length keys] HashMap))"

text \<open>
  \<open>Dictionary\<close> is \<open>HashMap<string, string>\<close>. Its \<open>erase\<close> throws \<open>InvalidKey\<close>
  where the base class returns \<open>false\<close>; its \<open>update\<close> runs over a range of pairs.
\<close>

type_synonym Dictionary = "(string, string) hash_map"

definition Dictionary_erase ::
  "string hasher \<Rightarrow> string \<Rightarrow> Dictionary \<Rightarrow> error + (bool \<times> Dictionary)" where
  "Dictionary_erase hf key t =
     (let index = get_hash_index hf t key
      in case erase_scan key (hm_map t ! index) 0 of
           Some j \<Rightarrow>
             (let t1 = t\<lparr>hm_map := (hm_map t)[index := vector_erase (hm_map t ! index) j]\<rparr>;
                  t2 = t1\<lparr>hm_size := hm_size t1 - 1\<rparr>
              in Inr (True, handle_resize hf False t2))
         | None \<Rightarrow> Inl (InvalidKey INVALID_KEY))"

definition Dictionary_update ::
  "string hasher \<Rightarrow> (string \<times> string) list \<Rightarrow> Dictionary \<Rightarrow> Dictionary" where
  "Dictionary_update hf its t =
     fold (\<lambda>it t. overwrite_then_insert hf (fst it) (snd it) t) its t"

section \<open>Specification\<close>

subsection \<open>Entries and the invariant\<close>

text \<open>
  The live entries of a table are the elements of its buckets, in bucket order. A table
  is well formed when it has \<open>_capacity\<close> buckets (at least one), every element
  lies in the bucket of its key's hash index, no key occurs twice, and \<open>_size\<close>
  counts the elements. Every constructor establishes this and every public operation
  keeps it (lemma \<open>reachable_invar\<close> below).
\<close>

definition entries :: "('k, 'v) hash_map \<Rightarrow> ('k \<times> 'v) list" where
  "entries t = concat (hm_map t)"

definition placed :: "'k hasher \<Rightarrow> ('k, 'v) hash_map \<Rightarrow> bool" where
  "placed hf t \<longleftrightarrow>
     length (hm_map t) = hm_capacity t \<and> 0 < hm_capacity t \<and>
     (\<forall>i < hm_capacity t. \<forall>e \<in> set (hm_map t ! i). get_hash_index hf t (fst e) = i)"

definition invar :: "'k hasher \<Rightarrow> ('k, 'v) hash_map \<Rightarrow> bool" where
  "invar hf t \<longleftrightarrow>
     placed hf t \<and> distinct (map fst (entries t)) \<and> hm_size t = int (length (entries t))"

subsection \<open>The table as a finite map\<close>

text \<open>
  The map a well-formed table stands for: a key is bound to the value of its entry.
\<close>

definition lookup :: "('k, 'v) hash_map \<Rightarrow> 'k \<rightharpoonup> 'v" where
  "lookup t = map_of (entries t)"

subsection \<open>Sequences of insertions\<close>

text \<open>The calls \<open>insert (k, v)\<close> for the pairs of a list, one after the other.\<close>

definition insert_each ::
  "'k hasher \<Rightarrow> ('k \<times> 'v) list \<Rightarrow> ('k, 'v) hash_map \<Rightarrow> ('k, 'v) hash_map" where
  "insert_each hf kvs t = fold (\<lambda>kv t. snd (insert_hm hf (fst kv) (snd kv) t)) kvs t"

subsection \<open>Capacity and load factor\<close>

text \<open>
  The capacity is a power of two and the load factor is at most the upper threshold.
\<close>

definition balanced :: "('k, 'v) hash_map \<Rightarrow> bool" where
  "balanced t \<longleftrightarrow> (\<exists>n. hm_capacity t = 2 ^ n) \<and> get_load_factor t \<le> UPPER_LOAD_FACTOR"

subsection \<open>Reachable tables\<close>

text \<open>
  The tables a program can build with the public interface of the two classes: the three
  constructors, \<open>insert\<close>, \<open>erase\<close>, \<open>clear\<close>, \<open>operator=\<close>, \<open>operator[]\<close>, a
  write through a reference returned by \<open>at\<close> or \<open>operator[]\<close>, and the iterations of
  the loop of \<open>Dictionary::update\<close>. (\<open>Dictionary::erase\<close> leaves the table that
  \<open>erase\<close> leaves, or throws before changing anything.)
\<close>

inductive reachable :: "'k hasher \<Rightarrow> ('k, 'v) hash_map \<Rightarrow> bool" for hf :: "'k hasher" where
  default: "reachable hf HashMap"
| vectors: "HashMap_vectors hf keys vals = Inr t \<Longrightarrow> reachable hf t"
| copy: "reachable hf hm \<Longrightarrow> HashMap_copy hf hm = Some t \<Longrightarrow> reachable hf t"
| insert: "reachable hf t \<Longrightarrow> reachable hf (snd (insert_hm hf key val t))"
| erase: "reachable hf t \<Longrightarrow> reachable hf (snd (erase hf key t))"
| clear: "reachable hf t \<Longrightarrow> reachable hf (clear t)"
| assign: "reachable hf t \<Longrightarrow> reachable hf hm \<Longrightarrow> assign hf t hm = Some t' \<Longrightarrow> reachable hf t'"
| index_access: "reachable hf t \<Longrightarrow> reachable hf (snd (index_access hf dflt key t))"
| store: "reachable hf t \<Longrightarrow> reachable hf (store_at hf key val t)"
| update: "reachable hf t \<Longrightarrow> reachable hf (overwrite_then_insert hf key val t)"

subsection \<open>The lower threshold\<close>

text \<open>
  The lower threshold: with more than one bucket, the load factor is at least 0.25. The
  tables that come \<open>later\<close> than a table are those that \<open>insert\<close>, \<open>erase\<close>,
  \<open>operator[]\<close>, writes through a returned reference and the iterations of
  \<open>Dictionary::update\<close> make of it (\<open>clear\<close>, \<open>operator=\<close> and the constructors
  start a table afresh and are not among them).
\<close>

definition lower_bound :: "('k, 'v) hash_map \<Rightarrow> bool" where
  "lower_bound t \<longleftrightarrow> (hm_capacity t > 1 \<longrightarrow> LOWER_LOAD_FACTOR \<le> get_load_factor t)"

inductive later :: "'k hasher \<Rightarrow> ('k, 'v) hash_map \<Rightarrow> ('k, 'v) hash_map \<Rightarrow> bool"
  for hf :: "'k hasher" and t :: "('k, 'v) hash_map" where
  same: "later hf t t"
| insert: "later hf t t' \<Longrightarrow> later hf t (snd (insert_hm hf key val t'))"
| erase: "later hf t t' \<Longrightarrow> later hf t (snd (erase hf key t'))"
| index_access: "later hf t t' \<Longrightarrow> later hf t (snd (index_access hf dflt key t'))"
| store: "later hf t t' \<Longrightarrow> later hf t (store_at hf key val t')"
| update: "later hf t t' \<Longrightarrow> later hf t (overwrite_then_insert hf key val t')"

subsection \<open>Concrete tables\<close>

text \<open>
  For tables with \<open>int\<close> keys: \<open>std::hash<int>\<close> of libstdc++ and of libc++ returns
  its argument, converted to \<open>size_t\<close>.
\<close>

definition hash_int :: "int hasher" where
  "hash_int key = word_of_int key"

text \<open>The table after \<open>insert (0, 1)\<close> and \<open>insert (5, 7)\<close> into an empty table.\<close>

definition table_0_5 :: "(int, int) hash_map" where
  "table_0_5 = snd (insert_hm hash_int 5 7 (snd (insert_hm hash_int 0 1 HashMap)))"

text \<open>
  \<open>std::hash<std::string>\<close> is left to the implementation; for concrete dictionaries
  a polynomial hash stands in for it.
\<close>

definition hash_string :: "string hasher" where
  "hash_string key = foldl (\<lambda>h c. h * 31 + of_char c) 0 key"

text \<open>The dictionary built from the keys a, b, c and the values 1, 2, 3.\<close>

definition dict_abc :: Dictionary where
  "dict_abc = projr (HashMap_vectors hash_string [''a'', ''b'', ''c''] [''1'', ''2'', ''3''])"

text \<open>Thirteen pairs with the keys 0, 1, ..., 12.\<close>

definition thirteen_pairs :: "(int \<times> int) list" where
  "thirteen_pairs = map (\<lambda>n. (int n, 100 + int n)) [0..<13]"

text \<open>
  Three tables with a single entry, and the table that the copy constructor builds from
  \<open>table_0_5\<close>. With this hash function the key 0 lies in bucket 0.
\<close>

definition table_0_1 :: "(int, int) hash_map" where
  "table_0_1 = snd (insert_hm hash_int 0 1 HashMap)"

definition table_0_2 :: "(int, int) hash_map" where
  "table_0_2 = snd (insert_hm hash_int 0 2 HashMap)"

definition table_1_9 :: "(int, int) hash_map" where
  "table_1_9 = snd (insert_hm hash_int 1 9 HashMap)"

definition copy_0_5 :: "(int, int) hash_map" where
  "copy_0_5 = \<lparr>hm_map = [[], [], [], [], [], [(5, 7)], [], [],
                          [], [], [], [], [], [], [], []],
                hm_size = 1, hm_capacity = 16\<rparr>"

section \<open>Properties of the model\<close>

subsection \<open>Buckets and lookups\<close>

lemma get_hash_index_less:
  assumes "0 < hm_capacity t"
  shows "get_hash_index hf t key < hm_capacity t"
proof -
  let ?m = "of_nat (hm_capacity t - 1) :: 64 word"
  have "hf key AND ?m \<le> ?m" by (rule word_and_le1)
  then have "unat (hf key AND ?m) \<le> unat ?m" by (simp add: word_le_nat_alt)
  also have "unat ?m \<le> hm_capacity t - 1"
    by (simp add: unat_of_nat)
  finally show ?thesis using assms by (simp add: get_hash_index_def)
qed

lemma get_hash_index_cong:
  "hm_capacity t = hm_capacity t' \<Longrightarrow> get_hash_index hf t key = get_hash_index hf t' key"
  by (simp add: get_hash_index_def)

lemma mset_concat_update:
  "i < length xs \<Longrightarrow> mset (concat (xs[i := y])) + mset (xs ! i) = mset (concat xs) + mset y"
proof (induction xs arbitrary: i)
  case Nil
  then show ?case by simp
next
  case (Cons x xs)
  show ?case
  proof (cases i)
    case 0
    then show ?thesis by simp
  next
    case (Suc j)
    with Cons.prems have "j < length xs" by simp
    from Cons.IH [OF this] Suc show ?thesis by (simp add: ac_simps)
  qed
qed

lemma key_in_bucket_iff: "key_in_bucket key b \<longleftrightarrow> key \<in> fst ` set b"
  by (induction b) auto

lemma at_bucket_map_of:
  "at_bucket key b = (case map_of b key of None \<Rightarrow> Inl KeyNotFound | Some v \<Rightarrow> Inr v)"
  by (induction b) auto

lemma erase_scan_None: "erase_scan key b j = None \<longleftrightarrow> key \<notin> fst ` set (drop j b)"
proof (induction key b j rule: erase_scan.induct)
  case (1 key bucket j)
  show ?case
  proof (cases "j < length bucket")
    case False
    then show ?thesis by (subst erase_scan.simps) simp
  next
    case True
    then have d: "drop j bucket = bucket ! j # drop (Suc j) bucket"
      by (simp add: Cons_nth_drop_Suc)
    show ?thesis
    proof (cases "key = fst (bucket ! j)")
      case True
      with \<open>j < length bucket\<close> d show ?thesis by (subst erase_scan.simps) simp
    next
      case False
      with \<open>j < length bucket\<close> "1.IH" d show ?thesis
        by (subst erase_scan.simps) simp
    qed
  qed
qed

lemma erase_scan_Some:
  "erase_scan key b j = Some i \<Longrightarrow> i < length b \<and> fst (b ! i) = key"
proof (induction key b j rule: erase_scan.induct)
  case (1 key bucket j)
  from "1.prems" have lt: "j < length bucket"
    by (subst (asm) erase_scan.simps) (simp split: if_splits)
  show ?case
  proof (cases "key = fst (bucket ! j)")
    case True
    with lt "1.prems" show ?thesis by (subst (asm) erase_scan.simps) auto
  next
    case False
    with lt "1.prems" have "erase_scan key bucket (j + 1) = Some i"
      by (subst (asm) erase_scan.simps) simp
    with lt False "1.IH" show ?thesis by simp
  qed
qed

lemma mset_vector_erase:
  "i < length v \<Longrightarrow> add_mset (v ! i) (mset (vector_erase v i)) = mset v"
proof -
  assume "i < length v"
  then have "v = take i v @ v ! i # drop (Suc i) v" by (rule id_take_nth_drop)
  then have "mset v = mset (take i v @ v ! i # drop (Suc i) v)" by simp
  then show ?thesis by (simp add: vector_erase_def)
qed

lemma distinct_bucket:
  "distinct (map fst (concat bs)) \<Longrightarrow> b \<in> set bs \<Longrightarrow> distinct (map fst b)"
  by (induction bs) auto

lemma in_entries_iff:
  assumes "placed hf t"
  shows "e \<in> set (entries t) \<longleftrightarrow> e \<in> set (hm_map t ! get_hash_index hf t (fst e))"
proof
  assume "e \<in> set (entries t)"
  then obtain b where b: "b \<in> set (hm_map t)" "e \<in> set b"
    by (auto simp: entries_def)
  then obtain i where i: "i < length (hm_map t)" "hm_map t ! i = b"
    by (auto simp: in_set_conv_nth)
  with assms b have "get_hash_index hf t (fst e) = i"
    by (auto simp: placed_def)
  with i b show "e \<in> set (hm_map t ! get_hash_index hf t (fst e))" by simp
next
  assume e: "e \<in> set (hm_map t ! get_hash_index hf t (fst e))"
  from assms have "get_hash_index hf t (fst e) < length (hm_map t)"
    by (simp add: placed_def get_hash_index_less)
  then have "hm_map t ! get_hash_index hf t (fst e) \<in> set (hm_map t)" by simp
  with e show "e \<in> set (entries t)" by (auto simp: entries_def)
qed

lemma contains_key_iff:
  assumes "placed hf t"
  shows "contains_key hf t key \<longleftrightarrow> key \<in> fst ` set (entries t)"
proof -
  have "key \<in> fst ` set (entries t) \<longleftrightarrow> (\<exists>v. (key, v) \<in> set (entries t))"
    by force
  also have "\<dots> \<longleftrightarrow> (\<exists>v. (key, v) \<in> set (hm_map t ! get_hash_index hf t key))"
    using in_entries_iff [OF assms, of "(key, v)" for v] by simp
  also have "\<dots> \<longleftrightarrow> key \<in> fst ` set (hm_map t ! get_hash_index hf t key)"
    by force
  finally show ?thesis
    by (simp add: contains_key_def key_in_bucket_iff)
qed

lemma at_hm_iff:
  assumes "invar hf t"
  shows "at_hm hf t key = Inr v \<longleftrightarrow> (key, v) \<in> set (entries t)"
proof -
  from assms have p: "placed hf t" and d: "distinct (map fst (entries t))"
    by (simp_all add: invar_def)
  let ?b = "hm_map t ! get_hash_index hf t key"
  from p have "?b \<in> set (hm_map t)"
    by (simp add: placed_def get_hash_index_less)
  with d have db: "distinct (map fst ?b)"
    unfolding entries_def by (rule distinct_bucket)
  have "at_hm hf t key = Inr v \<longleftrightarrow> map_of ?b key = Some v"
    by (simp add: at_hm_def at_bucket_map_of split: option.splits)
  also have "\<dots> \<longleftrightarrow> (key, v) \<in> set ?b"
    using db by simp
  also have "\<dots> \<longleftrightarrow> (key, v) \<in> set (entries t)"
    using in_entries_iff [OF p, of "(key, v)"] by simp
  finally show ?thesis .
qed

lemma at_hm_absent:
  assumes "placed hf t"
  shows "at_hm hf t key = Inl KeyNotFound \<longleftrightarrow> key \<notin> fst ` set (entries t)"
proof -
  let ?b = "hm_map t ! get_hash_index hf t key"
  have "at_hm hf t key = Inl KeyNotFound \<longleftrightarrow> map_of ?b key = None"
    by (simp add: at_hm_def at_bucket_map_of split: option.splits)
  also have "\<dots> \<longleftrightarrow> \<not> key_in_bucket key ?b"
    by (simp add: map_of_eq_None_iff key_in_bucket_iff)
  also have "\<dots> \<longleftrightarrow> key \<notin> fst ` set (entries t)"
    using contains_key_iff [OF assms, of key] by (simp add: contains_key_def)
  finally show ?thesis .
qed

subsection \<open>Rehashing keeps the entries\<close>

lemma placed_push_element:
  assumes "placed hf t"
  shows "placed hf (push_element hf e t)"
proof -
  let ?k = "get_hash_index hf t (fst e)"
  let ?t = "push_element hf e t"
  from assms have len: "length (hm_map t) = hm_capacity t" and pos: "0 < hm_capacity t"
    by (simp_all add: placed_def)
  have idx: "get_hash_index hf ?t key = get_hash_index hf t key" for key
    by (rule get_hash_index_cong) simp
  have k: "?k < length (hm_map t)"
    using len pos by (simp add: get_hash_index_less)
  have "get_hash_index hf ?t (fst x) = i"
    if "i < hm_capacity ?t" and "x \<in> set (hm_map ?t ! i)" for i x
  proof (cases "i = ?k")
    case True
    with that k have "x \<in> set (hm_map t ! ?k) \<or> x = e"
      by (auto simp: push_element_def Let_def)
    with assms k len True show ?thesis
      by (auto simp: idx placed_def)
  next
    case False
    with that have "x \<in> set (hm_map t ! i)"
      by (simp add: push_element_def Let_def)
    with assms that show ?thesis
      by (auto simp: idx placed_def)
  qed
  with len pos show ?thesis
    unfolding placed_def by simp
qed

lemma entries_push_element:
  assumes "placed hf t"
  shows "mset (entries (push_element hf e t)) = add_mset e (mset (entries t))"
proof -
  let ?k = "get_hash_index hf t (fst e)"
  from assms have k: "?k < length (hm_map t)"
    by (simp add: placed_def get_hash_index_less)
  from mset_concat_update [OF k, of "hm_map t ! ?k @ [e]"]
  show ?thesis
    by (simp add: entries_def push_element_def Let_def)
qed

lemma fold_push_element:
  "placed hf t \<Longrightarrow>
   placed hf (fold (push_element hf) es t) \<and>
   mset (entries (fold (push_element hf) es t)) = mset es + mset (entries t)"
proof (induction es arbitrary: t)
  case Nil
  then show ?case by simp
next
  case (Cons e es)
  from Cons.prems have "placed hf (push_element hf e t)"
    by (rule placed_push_element)
  from Cons.IH [OF this] Cons.prems show ?case
    by (simp add: entries_push_element)
qed

lemma fold_nth_upt:
  "n \<le> length xs \<Longrightarrow> fold (\<lambda>i. f (xs ! i)) [0..<n] s = fold f (take n xs) s"
proof (induction n)
  case 0
  then show ?case by simp
next
  case (Suc n)
  then have "take (Suc n) xs = take n xs @ [xs ! n]"
    by (simp add: take_Suc_conv_app_nth)
  with Suc show ?case by simp
qed

lemma move_elements_from_fold:
  "move_elements_from hf old_map (length old_map) t = fold (push_element hf) (concat old_map) t"
proof -
  have "fold (fold f) xss s = fold f (concat xss) s" for f :: "'x \<Rightarrow> 's \<Rightarrow> 's" and xss s
    by (induction xss arbitrary: s) simp_all
  then show ?thesis
    by (simp add: move_elements_from_def fold_nth_upt)
qed

lemma placed_empty_buckets:
  "0 < hm_capacity t \<Longrightarrow> placed hf (t\<lparr>hm_map := replicate (hm_capacity t) []\<rparr>)"
  by (simp add: placed_def)

lemma resize_map_entries:
  assumes "0 < hm_capacity t"
  shows "placed hf (resize_map hf (length (hm_map t)) t)"
    and "mset (entries (resize_map hf (length (hm_map t)) t)) = mset (entries t)"
proof -
  let ?t0 = "t\<lparr>hm_map := replicate (hm_capacity t) []\<rparr>"
  have r: "resize_map hf (length (hm_map t)) t = fold (push_element hf) (entries t) ?t0"
    by (simp add: resize_map_def Let_def move_elements_from_fold entries_def)
  from assms have "placed hf ?t0" by (rule placed_empty_buckets)
  from fold_push_element [OF this, of "entries t"]
  show "placed hf (resize_map hf (length (hm_map t)) t)"
    and "mset (entries (resize_map hf (length (hm_map t)) t)) = mset (entries t)"
    by (simp_all add: r) (simp add: entries_def)
qed

lemma invar_of_mset:
  assumes "placed hf t'" and "mset (entries t') = mset es"
    and "distinct (map fst es)" and "hm_size t' = int (length es)"
  shows "invar hf t'"
proof -
  from assms(2) have "mset (map fst (entries t')) = mset (map fst es)"
    by (metis mset_map)
  then have "distinct (map fst (entries t')) \<longleftrightarrow> distinct (map fst es)"
    by (rule mset_eq_imp_distinct_iff)
  moreover from assms(2) have "length (entries t') = length es"
    by (rule mset_eq_length)
  ultimately show ?thesis using assms by (simp add: invar_def)
qed

lemma invar_resize_map:
  assumes "invar hf t" and "0 < c"
  shows "invar hf (resize_map hf (hm_capacity t) (t\<lparr>hm_capacity := c\<rparr>))"
    and "mset (entries (resize_map hf (hm_capacity t) (t\<lparr>hm_capacity := c\<rparr>))) = mset (entries t)"
proof -
  let ?t = "t\<lparr>hm_capacity := c\<rparr>"
  from assms(1) have len: "hm_capacity t = length (hm_map ?t)"
    by (simp add: invar_def placed_def)
  have e: "entries ?t = entries t" by (simp add: entries_def)
  from assms(2) have pos: "0 < hm_capacity ?t" by simp
  from resize_map_entries [OF pos, of hf] e len
  have p: "placed hf (resize_map hf (hm_capacity t) ?t)"
    and m: "mset (entries (resize_map hf (hm_capacity t) ?t)) = mset (entries t)"
    by simp_all
  from m show "mset (entries (resize_map hf (hm_capacity t) ?t)) = mset (entries t)" .
  from assms(1) have "distinct (map fst (entries t))" "hm_size t = int (length (entries t))"
    by (simp_all add: invar_def)
  with p m show "invar hf (resize_map hf (hm_capacity t) ?t)"
    by (intro invar_of_mset [where es = "entries t"]) simp_all
qed

subsection \<open>Resizing keeps the invariant and the entries\<close>

lemma load_factor_gt_upper:
  "get_load_factor t > UPPER_LOAD_FACTOR \<longleftrightarrow>
   0 < hm_capacity t \<and> 3 * int (hm_capacity t) < 4 * hm_size t"
proof (cases "hm_capacity t = 0")
  case True
  then show ?thesis by (simp add: get_load_factor_def UPPER_LOAD_FACTOR_def)
next
  case False
  then have "(3 / 4 < (of_int (hm_size t) :: rat) / of_nat (hm_capacity t))
     \<longleftrightarrow> (of_int (3 * int (hm_capacity t)) :: rat) < of_int (4 * hm_size t)"
    by (simp add: field_simps)
  also have "\<dots> \<longleftrightarrow> 3 * int (hm_capacity t) < 4 * hm_size t"
    by (simp only: of_int_less_iff)
  finally show ?thesis using False
    by (simp add: get_load_factor_def UPPER_LOAD_FACTOR_def)
qed

lemma load_factor_lt_lower:
  "0 < hm_capacity t \<Longrightarrow>
   get_load_factor t < LOWER_LOAD_FACTOR \<longleftrightarrow> 4 * hm_size t < int (hm_capacity t)"
proof -
  assume "0 < hm_capacity t"
  then have "((of_int (hm_size t) :: rat) / of_nat (hm_capacity t) < 1 / 4)
     \<longleftrightarrow> (of_int (4 * hm_size t) :: rat) < of_int (int (hm_capacity t))"
    by (simp add: field_simps)
  also have "\<dots> \<longleftrightarrow> 4 * hm_size t < int (hm_capacity t)"
    by (simp only: of_int_less_iff)
  finally show ?thesis
    by (simp add: get_load_factor_def LOWER_LOAD_FACTOR_def)
qed

lemma handle_resize_grow_stop:
  "\<not> (get_load_factor t > UPPER_LOAD_FACTOR \<and> increase) \<Longrightarrow>
   handle_resize_grow hf increase t = t"
  by (subst handle_resize_grow.simps) (erule if_not_P)

lemma handle_resize_grow_step:
  "get_load_factor t > UPPER_LOAD_FACTOR \<and> increase \<Longrightarrow>
   handle_resize_grow hf increase t =
   handle_resize_grow hf increase
     (resize_map hf (hm_capacity t) (t\<lparr>hm_capacity := hm_capacity t * 2\<rparr>))"
  by (subst handle_resize_grow.simps) (erule if_P)

lemma handle_resize_shrink_stop:
  "\<not> (get_load_factor t < LOWER_LOAD_FACTOR \<and> \<not> increase \<and> hm_capacity t > MIN_CAPACITY) \<Longrightarrow>
   handle_resize_shrink hf increase t = t"
  by (subst handle_resize_shrink.simps) (erule if_not_P)

lemma handle_resize_shrink_step:
  "get_load_factor t < LOWER_LOAD_FACTOR \<and> \<not> increase \<and> hm_capacity t > MIN_CAPACITY \<Longrightarrow>
   handle_resize_shrink hf increase t =
   handle_resize_shrink hf increase
     (resize_map hf (hm_capacity t) (t\<lparr>hm_capacity := hm_capacity t div 2\<rparr>))"
  by (subst handle_resize_shrink.simps) (erule if_P)

lemma handle_resize_grow_invar:
  "invar hf t \<Longrightarrow>
   invar hf (handle_resize_grow hf increase t) \<and>
   mset (entries (handle_resize_grow hf increase t)) = mset (entries t) \<and>
   hm_size (handle_resize_grow hf increase t) = hm_size t"
proof (induction hf increase t rule: handle_resize_grow.induct)
  case (1 hf increase t)
  show ?case
  proof (cases "get_load_factor t > UPPER_LOAD_FACTOR \<and> increase")
    case False
    with "1.prems" show ?thesis by (simp add: handle_resize_grow_stop)
  next
    case True
    let ?t = "resize_map hf (hm_capacity t) (t\<lparr>hm_capacity := hm_capacity t * 2\<rparr>)"
    from "1.prems" have pos: "0 < hm_capacity t * 2"
      by (simp add: invar_def placed_def)
    from invar_resize_map [OF "1.prems" pos]
    have i: "invar hf ?t" and m: "mset (entries ?t) = mset (entries t)" by simp_all
    from "1.IH" [OF True i] m show ?thesis
      by (simp add: handle_resize_grow_step [OF True])
  qed
qed

lemma handle_resize_shrink_invar:
  "invar hf t \<Longrightarrow>
   invar hf (handle_resize_shrink hf increase t) \<and>
   mset (entries (handle_resize_shrink hf increase t)) = mset (entries t) \<and>
   hm_size (handle_resize_shrink hf increase t) = hm_size t"
proof (induction hf increase t rule: handle_resize_shrink.induct)
  case (1 hf increase t)
  let ?c = "get_load_factor t < LOWER_LOAD_FACTOR \<and> \<not> increase \<and> hm_capacity t > MIN_CAPACITY"
  show ?case
  proof (cases ?c)
    case False
    with "1.prems" show ?thesis by (simp add: handle_resize_shrink_stop)
  next
    case True
    let ?t = "resize_map hf (hm_capacity t) (t\<lparr>hm_capacity := hm_capacity t div 2\<rparr>)"
    from True have pos: "0 < hm_capacity t div 2"
      by (simp add: MIN_CAPACITY_def)
    from invar_resize_map [OF "1.prems" pos]
    have i: "invar hf ?t" and m: "mset (entries ?t) = mset (entries t)" by simp_all
    from "1.IH" [OF True i] m show ?thesis
      by (simp add: handle_resize_shrink_step [OF True])
  qed
qed

lemma handle_resize_invar:
  assumes "invar hf t"
  shows "invar hf (handle_resize hf increase t)"
    and "mset (entries (handle_resize hf increase t)) = mset (entries t)"
    and "hm_size (handle_resize hf increase t) = hm_size t"
proof -
  let ?g = "handle_resize_grow hf increase t"
  from handle_resize_grow_invar [OF assms, of increase]
  have g: "invar hf ?g" "mset (entries ?g) = mset (entries t)" "hm_size ?g = hm_size t"
    by simp_all
  from handle_resize_shrink_invar [OF g(1), of increase] g
  show "invar hf (handle_resize hf increase t)"
    and "mset (entries (handle_resize hf increase t)) = mset (entries t)"
    and "hm_size (handle_resize hf increase t) = hm_size t"
    by (simp_all add: handle_resize_def)
qed

subsection \<open>Constructors, insertion and removal keep the invariant\<close>

lemma placed_hm_size_update [simp]: "placed hf (t\<lparr>hm_size := s\<rparr>) = placed hf t"
  by (simp add: placed_def get_hash_index_def)

lemma entries_hm_size_update [simp]: "entries (t\<lparr>hm_size := s\<rparr>) = entries t"
  by (simp add: entries_def)

lemma invar_HashMap: "invar hf HashMap"
  by (simp add: invar_def placed_def entries_def HashMap_def INITIAL_CAPACITY_def
      INITIAL_SIZE_def)

lemma invar_clear: "0 < hm_capacity t \<Longrightarrow> invar hf (clear t)"
  by (simp add: invar_def placed_def entries_def clear_def INITIAL_SIZE_def
      get_hash_index_def)

lemma entries_clear: "entries (clear t) = []"
  by (simp add: entries_def clear_def)

lemma insert_hm_present:
  "contains_key hf t key \<Longrightarrow> insert_hm hf key val t = (False, t)"
  by (simp add: insert_hm_def contains_key_def Let_def)

lemma insert_hm_absent:
  "\<not> contains_key hf t key \<Longrightarrow>
   insert_hm hf key val t =
     (True, handle_resize hf True ((push_element hf (key, val) t)\<lparr>hm_size := hm_size t + 1\<rparr>))"
  by (simp add: insert_hm_def contains_key_def push_element_def Let_def)

lemma invar_pushed:
  assumes "invar hf t" and "\<not> contains_key hf t key"
  shows "invar hf ((push_element hf (key, val) t)\<lparr>hm_size := hm_size t + 1\<rparr>)"
proof (rule invar_of_mset [where es = "(key, val) # entries t"])
  from assms(1) have p: "placed hf t" by (simp add: invar_def)
  then show "placed hf ((push_element hf (key, val) t)\<lparr>hm_size := hm_size t + 1\<rparr>)"
    by (simp add: placed_push_element)
  from p show "mset (entries ((push_element hf (key, val) t)\<lparr>hm_size := hm_size t + 1\<rparr>))
      = mset ((key, val) # entries t)"
    by (simp add: entries_push_element)
  from assms p show "distinct (map fst ((key, val) # entries t))"
    by (simp add: invar_def contains_key_iff)
  from assms(1) show "hm_size ((push_element hf (key, val) t)\<lparr>hm_size := hm_size t + 1\<rparr>)
      = int (length ((key, val) # entries t))"
    by (simp add: invar_def)
qed

lemma insert_hm_new:
  assumes "invar hf t" and "\<not> contains_key hf t key"
  shows "fst (insert_hm hf key val t)"
    and "invar hf (snd (insert_hm hf key val t))"
    and "mset (entries (snd (insert_hm hf key val t))) = add_mset (key, val) (mset (entries t))"
    and "hm_size (snd (insert_hm hf key val t)) = hm_size t + 1"
proof -
  let ?p = "(push_element hf (key, val) t)\<lparr>hm_size := hm_size t + 1\<rparr>"
  from assms have i: "invar hf ?p" by (rule invar_pushed)
  from assms(1) have "placed hf t" by (simp add: invar_def)
  then have m: "mset (entries ?p) = add_mset (key, val) (mset (entries t))"
    by (simp add: entries_push_element)
  from handle_resize_invar [OF i, of True] m assms(2)
  show "fst (insert_hm hf key val t)"
    and "invar hf (snd (insert_hm hf key val t))"
    and "mset (entries (snd (insert_hm hf key val t))) = add_mset (key, val) (mset (entries t))"
    and "hm_size (snd (insert_hm hf key val t)) = hm_size t + 1"
    by (simp_all add: insert_hm_absent)
qed

lemma invar_insert_hm: "invar hf t \<Longrightarrow> invar hf (snd (insert_hm hf key val t))"
  by (cases "contains_key hf t key") (simp_all add: insert_hm_present insert_hm_new)

text \<open>
  The state in which \<open>erase\<close> (of either class) calls \<open>handle_resize\<close>, once its loop
  has found the key at position \<open>j\<close>.
\<close>

lemma invar_erased:
  assumes "invar hf t" and "erase_scan key (hm_map t ! get_hash_index hf t key) 0 = Some j"
  defines "t2 \<equiv> t\<lparr>hm_map := (hm_map t)[get_hash_index hf t key :=
                       vector_erase (hm_map t ! get_hash_index hf t key) j],
                    hm_size := hm_size t - 1\<rparr>"
  shows "invar hf t2"
    and "\<exists>v. mset (entries t) = add_mset (key, v) (mset (entries t2))"
proof -
  let ?i = "get_hash_index hf t key"
  let ?b = "hm_map t ! ?i"
  from assms(1) have p: "placed hf t" and d: "distinct (map fst (entries t))"
    and sz: "hm_size t = int (length (entries t))"
    by (simp_all add: invar_def)
  from p have i: "?i < length (hm_map t)" and len: "length (hm_map t) = hm_capacity t"
    by (simp_all add: placed_def get_hash_index_less)
  from erase_scan_Some [OF assms(2)] have j: "j < length ?b" and k: "fst (?b ! j) = key"
    by simp_all
  have sub: "set (vector_erase ?b j) \<subseteq> set ?b"
    by (auto simp: vector_erase_def dest: in_set_takeD in_set_dropD)
  have idx: "get_hash_index hf t2 x = get_hash_index hf t x" for x
    by (rule get_hash_index_cong) (simp add: t2_def)
  have "get_hash_index hf t2 (fst e) = n"
    if "n < hm_capacity t2" and "e \<in> set (hm_map t2 ! n)" for n e
  proof -
    from that i sub have "e \<in> set (hm_map t ! n)"
      by (cases "n = ?i") (auto simp: t2_def)
    with p that show ?thesis by (simp add: placed_def t2_def get_hash_index_def)
  qed
  with len p have p2: "placed hf t2"
    unfolding placed_def by (simp add: t2_def)
  from mset_concat_update [OF i, of "vector_erase ?b j"]
  have "mset (entries t2) + mset ?b = mset (entries t) + mset (vector_erase ?b j)"
    by (simp add: entries_def t2_def)
  also have "mset ?b = add_mset (?b ! j) (mset (vector_erase ?b j))"
    using mset_vector_erase [OF j] by simp
  finally have m: "mset (entries t) = add_mset (?b ! j) (mset (entries t2))"
    by simp
  then have m': "mset (entries t) = mset (?b ! j # entries t2)" by simp
  then have "mset (map fst (entries t)) = mset (map fst (?b ! j # entries t2))"
    by (metis mset_map)
  then have "distinct (map fst (entries t)) \<longleftrightarrow> distinct (map fst (?b ! j # entries t2))"
    by (rule mset_eq_imp_distinct_iff)
  with d have d2: "distinct (map fst (entries t2))" by simp
  from m' have "length (entries t) = length (?b ! j # entries t2)"
    by (rule mset_eq_length)
  with sz have "hm_size t2 = int (length (entries t2))" by (simp add: t2_def)
  with p2 d2 show "invar hf t2" by (simp add: invar_def)
  from m k show "\<exists>v. mset (entries t) = add_mset (key, v) (mset (entries t2))"
    by (metis prod.collapse)
qed

lemma erase_absent:
  "\<not> contains_key hf t key \<Longrightarrow> erase hf key t = (False, t)"
proof -
  assume "\<not> contains_key hf t key"
  then have "key \<notin> fst ` set (hm_map t ! get_hash_index hf t key)"
    by (simp add: contains_key_def key_in_bucket_iff)
  then have "erase_scan key (hm_map t ! get_hash_index hf t key) 0 = None"
    by (simp add: erase_scan_None)
  then show ?thesis by (simp add: erase_def)
qed

lemma erase_present:
  assumes "invar hf t" and "contains_key hf t key"
  shows "fst (erase hf key t)"
    and "invar hf (snd (erase hf key t))"
    and "\<exists>v. mset (entries t) = add_mset (key, v) (mset (entries (snd (erase hf key t))))"
    and "hm_size (snd (erase hf key t)) = hm_size t - 1"
proof -
  let ?i = "get_hash_index hf t key"
  from assms(2) have "key \<in> fst ` set (hm_map t ! ?i)"
    by (simp add: contains_key_def key_in_bucket_iff)
  then have "erase_scan key (hm_map t ! ?i) 0 \<noteq> None"
    by (simp add: erase_scan_None)
  then obtain j where j: "erase_scan key (hm_map t ! ?i) 0 = Some j" by auto
  let ?t2 = "t\<lparr>hm_map := (hm_map t)[?i := vector_erase (hm_map t ! ?i) j],
               hm_size := hm_size t - 1\<rparr>"
  have e: "erase hf key t = (True, handle_resize hf False ?t2)"
    by (simp add: erase_def Let_def j)
  from invar_erased [OF assms(1) j]
  have i2: "invar hf ?t2"
    and m2: "\<exists>v. mset (entries t) = add_mset (key, v) (mset (entries ?t2))"
    by simp_all
  from handle_resize_invar [OF i2, of False] m2
  show "fst (erase hf key t)"
    and "invar hf (snd (erase hf key t))"
    and "\<exists>v. mset (entries t) = add_mset (key, v) (mset (entries (snd (erase hf key t))))"
    and "hm_size (snd (erase hf key t)) = hm_size t - 1"
    by (simp_all add: e)
qed

lemma invar_erase: "invar hf t \<Longrightarrow> invar hf (snd (erase hf key t))"
  by (cases "contains_key hf t key") (simp_all add: erase_absent erase_present)

lemma Dictionary_erase_conv:
  "Dictionary_erase hf key t =
     (if fst (erase hf key t) then Inr (erase hf key t) else Inl (InvalidKey INVALID_KEY))"
  by (simp add: Dictionary_erase_def erase_def Let_def split: option.splits)

subsection \<open>The table as a finite map: lookups\<close>

lemma at_hm_lookup:
  assumes "invar hf t"
  shows "at_hm hf t key = (case lookup t key of None \<Rightarrow> Inl KeyNotFound | Some v \<Rightarrow> Inr v)"
proof (cases "lookup t key")
  case None
  then have "key \<notin> fst ` set (entries t)"
    by (simp add: lookup_def map_of_eq_None_iff)
  moreover from assms have "placed hf t" by (simp add: invar_def)
  ultimately show ?thesis using None by (simp add: at_hm_absent)
next
  case (Some v)
  then have "(key, v) \<in> set (entries t)"
    by (simp add: lookup_def map_of_SomeD)
  with assms Some show ?thesis by (simp add: at_hm_iff)
qed

lemma contains_key_lookup:
  assumes "invar hf t"
  shows "contains_key hf t key \<longleftrightarrow> key \<in> dom (lookup t)"
proof -
  from assms have "placed hf t" by (simp add: invar_def)
  then show ?thesis
    by (simp add: contains_key_iff lookup_def dom_map_of_conv_image_fst)
qed

lemma size_lookup:
  assumes "invar hf t"
  shows "hm_size t = int (card (dom (lookup t)))"
proof -
  from assms have d: "distinct (map fst (entries t))" and s: "hm_size t = int (length (entries t))"
    by (simp_all add: invar_def)
  have "dom (lookup t) = set (map fst (entries t))"
    by (simp add: lookup_def dom_map_of_conv_image_fst)
  with distinct_card [OF d] s show ?thesis by simp
qed

lemma lookup_of_mset:
  assumes "invar hf t" and "mset (entries t) = mset es"
  shows "lookup t = map_of es"
proof -
  from assms(1) have d: "distinct (map fst (entries t))" by (simp add: invar_def)
  from assms(2) have "mset (map fst (entries t)) = mset (map fst es)"
    by (metis mset_map)
  then have "distinct (map fst (entries t)) \<longleftrightarrow> distinct (map fst es)"
    by (rule mset_eq_imp_distinct_iff)
  with d have d': "distinct (map fst es)" by simp
  from assms(2) have "set (entries t) = set es" by (rule mset_eq_setD)
  with d d' show ?thesis
    by (simp add: lookup_def map_of_inject_set)
qed

lemma lookup_HashMap: "lookup HashMap = Map.empty"
  by (simp add: lookup_def entries_def HashMap_def)

lemma lookup_clear: "lookup (clear t) = Map.empty"
  by (simp add: lookup_def entries_clear)

lemma lookup_insert_hm:
  assumes "invar hf t"
  shows "lookup (snd (insert_hm hf key val t)) =
           (if key \<in> dom (lookup t) then lookup t else (lookup t)(key \<mapsto> val))"
proof (cases "contains_key hf t key")
  case True
  with assms show ?thesis
    by (simp add: insert_hm_present contains_key_lookup)
next
  case False
  from insert_hm_new(2,3) [OF assms False, of val]
  have "lookup (snd (insert_hm hf key val t)) = map_of ((key, val) # entries t)"
    by (intro lookup_of_mset) simp_all
  with False assms show ?thesis
    by (simp add: contains_key_lookup) (simp add: lookup_def)
qed

lemma lookup_erase:
  assumes "invar hf t"
  shows "lookup (snd (erase hf key t)) = (lookup t)(key := None)"
proof (cases "contains_key hf t key")
  case False
  with assms have "lookup t key = None"
    by (auto simp: contains_key_lookup)
  with False show ?thesis
    by (simp add: erase_absent fun_upd_idem)
next
  case True
  let ?t = "snd (erase hf key t)"
  from erase_present(2,3) [OF assms True]
  obtain v where i: "invar hf ?t" and m: "mset (entries t) = mset ((key, v) # entries ?t)"
    by auto
  from lookup_of_mset [OF assms m]
  have l: "lookup t = (lookup ?t)(key \<mapsto> v)" by (simp add: lookup_def)
  from assms have "distinct (map fst (entries t))" by (simp add: invar_def)
  moreover from m have "mset (map fst (entries t)) = mset (map fst ((key, v) # entries ?t))"
    by (metis mset_map)
  then have "distinct (map fst (entries t)) \<longleftrightarrow> distinct (map fst ((key, v) # entries ?t))"
    by (rule mset_eq_imp_distinct_iff)
  ultimately have "key \<notin> fst ` set (entries ?t)" by simp
  then have "lookup ?t key = None"
    by (simp add: lookup_def map_of_eq_None_iff)
  with l show ?thesis by (simp add: fun_upd_idem)
qed

subsection \<open>Overwriting, then inserting\<close>

lemma lookup_bucket:
  assumes "invar hf t"
  shows "lookup t key = map_of (hm_map t ! get_hash_index hf t key) key"
proof -
  from at_hm_lookup [OF assms, of key]
  have "(case lookup t key of None \<Rightarrow> Inl KeyNotFound | Some v \<Rightarrow> Inr v)
      = (case map_of (hm_map t ! get_hash_index hf t key) key of
           None \<Rightarrow> Inl KeyNotFound | Some v \<Rightarrow> Inr v)"
    by (simp add: at_hm_def at_bucket_map_of)
  then show ?thesis by (auto split: option.splits)
qed

lemma map_fst_overwrite_values [simp]: "map fst (overwrite_values key val b) = map fst b"
  by (induction b) (simp_all add: overwrite_values_def)

lemma fst_set_overwrite_values [simp]:
  "fst ` set (overwrite_values key val b) = fst ` set b"
proof -
  have "set (map fst (overwrite_values key val b)) = set (map fst b)"
    by (simp only: map_fst_overwrite_values)
  then show ?thesis by (simp only: set_map)
qed

lemma map_of_overwrite_values:
  "map_of (overwrite_values key val b) k =
     (if k = key then map_option (\<lambda>_. val) (map_of b key) else map_of b k)"
  by (induction b) (auto simp: overwrite_values_def)

lemma overwrite_values_same:
  "\<forall>e \<in> set b. fst e = key \<longrightarrow> snd e = val \<Longrightarrow> overwrite_values key val b = b"
  by (induction b) (auto simp: overwrite_values_def)

lemma map_fst_concat_update:
  "map fst b' = map fst (bs ! i) \<Longrightarrow>
   map fst (concat (bs[i := b'])) = map fst (concat bs)"
proof (induction bs arbitrary: i)
  case Nil
  then show ?case by simp
next
  case (Cons b bs)
  then show ?case by (cases i) simp_all
qed

lemma invar_overwritten:
  fixes key :: 'k and val :: 'v
  assumes "invar hf t"
  defines "t1 \<equiv> t\<lparr>hm_map := (hm_map t)[get_hash_index hf t key :=
                      overwrite_values key val (hm_map t ! get_hash_index hf t key)]\<rparr>"
  shows "invar hf t1"
    and "lookup t1 = (if key \<in> dom (lookup t) then (lookup t)(key \<mapsto> val) else lookup t)"
proof -
  let ?i = "get_hash_index hf t key"
  from assms(1) have p: "placed hf t" and d: "distinct (map fst (entries t))"
    and sz: "hm_size t = int (length (entries t))"
    by (simp_all add: invar_def)
  from p have i: "?i < length (hm_map t)" and len: "length (hm_map t) = hm_capacity t"
    by (simp_all add: placed_def get_hash_index_less)
  have keys: "map fst (entries t1) = map fst (entries t)"
    by (simp add: entries_def t1_def map_fst_concat_update)
  have "get_hash_index hf t1 (fst e) = n"
    if "n < hm_capacity t1" and "e \<in> set (hm_map t1 ! n)" for n e
  proof -
    from that i have "fst e \<in> fst ` set (hm_map t ! n)"
    proof (cases "n = ?i")
      case True
      with that i have "e \<in> set (overwrite_values key val (hm_map t ! ?i))"
        by (simp add: t1_def)
      then have "fst e \<in> fst ` set (overwrite_values key val (hm_map t ! ?i))"
        by (rule imageI)
      with True show ?thesis by simp
    next
      case False
      with that show ?thesis by (simp add: t1_def)
    qed
    then obtain e' where e': "e' \<in> set (hm_map t ! n)" "fst e' = fst e" by auto
    from that have "n < hm_capacity t" by (simp add: t1_def)
    with p e' have "get_hash_index hf t (fst e') = n"
      unfolding placed_def by blast
    with e' show ?thesis
      by (simp add: t1_def get_hash_index_def)
  qed
  with len p have p1: "placed hf t1"
    unfolding placed_def by (simp add: t1_def)
  from keys have "length (entries t1) = length (entries t)"
    by (metis length_map)
  with p1 keys d sz show inv1: "invar hf t1"
    by (simp add: invar_def t1_def)
  show "lookup t1 = (if key \<in> dom (lookup t) then (lookup t)(key \<mapsto> val) else lookup t)"
  proof (rule ext)
    fix k
    have idx: "get_hash_index hf t1 k = get_hash_index hf t k"
      by (simp add: t1_def get_hash_index_def)
    have l1: "lookup t1 k = map_of (hm_map t1 ! get_hash_index hf t k) k"
      using lookup_bucket [OF inv1, of k] by (simp add: idx)
    show "lookup t1 k =
        (if key \<in> dom (lookup t) then (lookup t)(key \<mapsto> val) else lookup t) k"
    proof (cases "k = key")
      case True
      with i l1 have "lookup t1 k = map_option (\<lambda>_. val) (map_of (hm_map t ! ?i) key)"
        by (simp add: t1_def map_of_overwrite_values)
      also have "map_of (hm_map t ! ?i) key = lookup t key"
        by (rule lookup_bucket [OF assms(1), symmetric])
      finally show ?thesis using True by (auto simp: dom_def)
    next
      case False
      have "lookup t1 k = map_of (hm_map t ! get_hash_index hf t k) k"
      proof (cases "get_hash_index hf t k = ?i")
        case True
        with i l1 False show ?thesis
          by (simp add: t1_def map_of_overwrite_values)
      next
        case False
        with l1 show ?thesis by (simp add: t1_def)
      qed
      also have "\<dots> = lookup t k"
        by (rule lookup_bucket [OF assms(1), symmetric])
      finally show ?thesis using False by simp
    qed
  qed
qed

lemma overwrite_then_insert_invar:
  assumes "invar hf t"
  shows "invar hf (overwrite_then_insert hf key val t)"
    and "lookup (overwrite_then_insert hf key val t) = (lookup t)(key \<mapsto> val)"
proof -
  let ?t1 = "t\<lparr>hm_map := (hm_map t)[get_hash_index hf t key :=
                   overwrite_values key val (hm_map t ! get_hash_index hf t key)]\<rparr>"
  have o: "overwrite_then_insert hf key val t = snd (insert_hm hf key val ?t1)"
    by (simp add: overwrite_then_insert_def Let_def)
  from invar_overwritten [OF assms, of key val]
  have i1: "invar hf ?t1"
    and l1: "lookup ?t1 = (if key \<in> dom (lookup t) then (lookup t)(key \<mapsto> val) else lookup t)"
    by simp_all
  from i1 show "invar hf (overwrite_then_insert hf key val t)"
    unfolding o by (rule invar_insert_hm)
  from lookup_insert_hm [OF i1, of key val] l1
  show "lookup (overwrite_then_insert hf key val t) = (lookup t)(key \<mapsto> val)"
    unfolding o by (auto simp: dom_def)
qed

lemma overwrite_then_insert_same:
  assumes "invar hf t" and "at_hm hf t key = Inr val"
  shows "overwrite_then_insert hf key val t = t"
proof -
  let ?i = "get_hash_index hf t key"
  let ?b = "hm_map t ! ?i"
  from assms(1) have p: "placed hf t" and d: "distinct (map fst (entries t))"
    by (simp_all add: invar_def)
  from p have "?b \<in> set (hm_map t)"
    by (simp add: placed_def get_hash_index_less)
  with d have db: "distinct (map fst ?b)"
    unfolding entries_def by (rule distinct_bucket)
  from assms(2) have m: "map_of ?b key = Some val"
    by (simp add: at_hm_def at_bucket_map_of split: option.splits)
  have "snd e = val" if "e \<in> set ?b" and "fst e = key" for e
  proof -
    from that have "(key, snd e) \<in> set ?b" by (metis prod.collapse)
    with db have "map_of ?b key = Some (snd e)" by simp
    with m show ?thesis by simp
  qed
  then have "overwrite_values key val ?b = ?b"
    by (intro overwrite_values_same) blast
  moreover from m have "key_in_bucket key ?b"
    by (simp add: key_in_bucket_iff) (metis map_of_SomeD fst_conv image_eqI)
  ultimately show ?thesis
    by (simp add: overwrite_then_insert_def Let_def insert_hm_def)
qed

lemma fold_overwrite_then_insert:
  "invar hf t \<Longrightarrow>
   invar hf (fold (\<lambda>it. overwrite_then_insert hf (fst it) (snd it)) its t) \<and>
   lookup (fold (\<lambda>it. overwrite_then_insert hf (fst it) (snd it)) its t)
     = fold (\<lambda>it m. m(fst it \<mapsto> snd it)) its (lookup t)"
proof (induction its arbitrary: t)
  case Nil
  then show ?case by simp
next
  case (Cons it its)
  from overwrite_then_insert_invar [OF Cons.prems, of "fst it" "snd it"]
  have i: "invar hf (overwrite_then_insert hf (fst it) (snd it) t)"
    and l: "lookup (overwrite_then_insert hf (fst it) (snd it) t) = (lookup t)(fst it \<mapsto> snd it)"
    by simp_all
  from Cons.IH [OF i] l show ?case by simp
qed

lemma HashMap_vectors_fold:
  assumes "length keys = length vals"
  shows "HashMap_vectors hf keys vals =
     Inr (fold (\<lambda>it. overwrite_then_insert hf (fst it) (snd it)) (zip keys vals) HashMap)"
proof -
  let ?f = "\<lambda>it. overwrite_then_insert hf (fst it) (snd it)"
  have "fold (\<lambda>i t. overwrite_then_insert hf (keys ! i) (vals ! i) t) [0..<length keys] s
      = fold (\<lambda>i. ?f (zip keys vals ! i)) [0..<length keys] s" for s
    using assms by (intro fold_cong) simp_all
  also have "\<dots> s = fold ?f (take (length keys) (zip keys vals)) s" for s
    using assms by (intro fold_nth_upt) simp
  finally show ?thesis using assms by (simp add: HashMap_vectors_def)
qed

lemma invar_HashMap_vectors:
  "HashMap_vectors hf keys vals = Inr t \<Longrightarrow> invar hf t"
proof -
  assume r: "HashMap_vectors hf keys vals = Inr t"
  then have "length keys = length vals"
    by (simp add: HashMap_vectors_def split: if_splits)
  from HashMap_vectors_fold [OF this, of hf] r
    fold_overwrite_then_insert [OF invar_HashMap, of hf "zip keys vals"]
  show ?thesis by simp
qed

lemma overwrite_then_insert_absent:
  assumes "\<not> contains_key hf t key"
  shows "overwrite_then_insert hf key val t = snd (insert_hm hf key val t)"
proof -
  let ?b = "hm_map t ! get_hash_index hf t key"
  from assms have "key \<notin> fst ` set ?b"
    by (simp add: contains_key_def key_in_bucket_iff)
  then have "overwrite_values key val ?b = ?b"
    by (intro overwrite_values_same) auto
  then show ?thesis
    by (simp add: overwrite_then_insert_def Let_def)
qed

lemma fold_upd_other:
  "k \<notin> fst ` set its \<Longrightarrow> fold (\<lambda>it m. m(fst it \<mapsto> snd it)) its m k = m k"
  by (induction its arbitrary: m) auto

lemma dom_fold_upd:
  "dom (fold (\<lambda>it m. m(fst it \<mapsto> snd it)) its m) = dom m \<union> fst ` set its"
  by (induction its arbitrary: m) auto

lemma fold_upd_last:
  "length ks = length vs \<Longrightarrow> i < length ks \<Longrightarrow>
   (\<forall>j. i < j \<and> j < length ks \<longrightarrow> ks ! j \<noteq> ks ! i) \<Longrightarrow>
   fold (\<lambda>it m. m(fst it \<mapsto> snd it)) (zip ks vs) m (ks ! i) = Some (vs ! i)"
proof (induction ks vs arbitrary: i m rule: list_induct2)
  case Nil
  then show ?case by simp
next
  case (Cons k ks v vs)
  have step: "fold (\<lambda>it m. m(fst it \<mapsto> snd it)) (zip (k # ks) (v # vs)) m
      = fold (\<lambda>it m. m(fst it \<mapsto> snd it)) (zip ks vs) (m(k \<mapsto> v))"
    by (simp only: zip_Cons_Cons fold_Cons o_apply fst_conv snd_conv)
  show ?case
  proof (cases i)
    case 0
    have "k \<notin> set ks"
    proof
      assume "k \<in> set ks"
      then obtain j where "j < length ks" "ks ! j = k" by (auto simp: in_set_conv_nth)
      with Cons.prems(2) [rule_format, of "Suc j"] 0 show False by simp
    qed
    then have "k \<notin> fst ` set (zip ks vs)"
      by (auto dest: set_zip_leftD)
    from fold_upd_other [OF this, of "m(k \<mapsto> v)"]
    have "fold (\<lambda>it m. m(fst it \<mapsto> snd it)) (zip ks vs) (m(k \<mapsto> v)) k = Some v"
      by (simp only: fun_upd_same)
    with 0 show ?thesis by (simp only: step nth_Cons_0)
  next
    case (Suc i')
    with Cons.prems have lt: "i' < length ks" by simp
    have "\<forall>j. i' < j \<and> j < length ks \<longrightarrow> ks ! j \<noteq> ks ! i'"
    proof (intro allI impI)
      fix j assume "i' < j \<and> j < length ks"
      with Cons.prems(2) [rule_format, of "Suc j"] Suc show "ks ! j \<noteq> ks ! i'" by simp
    qed
    from Cons.IH [OF lt this, of "m(k \<mapsto> v)"] Suc show ?thesis
      by (simp only: step nth_Cons_Suc)
  qed
qed

lemma at_hm_of_lookup_eq:
  assumes "invar hf t" and "invar hf t'" and "lookup t' k = lookup t k"
  shows "at_hm hf t' k = at_hm hf t k"
  using assms by (simp add: at_hm_lookup)

subsection \<open>Sequences of insertions\<close>

lemma insert_each_Nil [simp]: "insert_each hf [] t = t"
  by (simp add: insert_each_def)

lemma insert_each_Cons [simp]:
  "insert_each hf (kv # kvs) t = insert_each hf kvs (snd (insert_hm hf (fst kv) (snd kv) t))"
  by (simp add: insert_each_def)

lemma insert_each_append:
  "insert_each hf (xs @ ys) t = insert_each hf ys (insert_each hf xs t)"
  by (simp add: insert_each_def)

lemma invar_insert_each: "invar hf t \<Longrightarrow> invar hf (insert_each hf kvs t)"
  by (induction kvs arbitrary: t) (simp_all add: invar_insert_hm)

lemma insert_each_fresh:
  "invar hf t \<Longrightarrow> distinct (map fst kvs) \<Longrightarrow> fst ` set kvs \<inter> dom (lookup t) = {} \<Longrightarrow>
   lookup (insert_each hf kvs t) = lookup t ++ map_of kvs \<and>
   hm_size (insert_each hf kvs t) = hm_size t + int (length kvs)"
proof (induction kvs arbitrary: t)
  case Nil
  then show ?case by simp
next
  case (Cons kv kvs)
  let ?t = "snd (insert_hm hf (fst kv) (snd kv) t)"
  from Cons.prems have new: "\<not> contains_key hf t (fst kv)"
    by (simp add: contains_key_lookup)
  from Cons.prems have nk: "fst kv \<notin> dom (lookup t)" by simp
  from Cons.prems(1) have i: "invar hf ?t" by (rule invar_insert_hm)
  from lookup_insert_hm [OF Cons.prems(1), of "fst kv" "snd kv"] nk
  have l: "lookup ?t = (lookup t)(fst kv \<mapsto> snd kv)" by simp
  from insert_hm_new(4) [OF Cons.prems(1) new]
  have s: "hm_size ?t = hm_size t + 1" .
  from Cons.prems have d: "distinct (map fst kvs)" and nin: "fst kv \<notin> fst ` set kvs"
    by simp_all
  from Cons.prems nin have "fst ` set kvs \<inter> dom (lookup ?t) = {}"
    by (auto simp: l)
  from Cons.IH [OF i d this]
  have L: "lookup (insert_each hf kvs ?t) = lookup ?t ++ map_of kvs"
    and S: "hm_size (insert_each hf kvs ?t) = hm_size ?t + int (length kvs)"
    by simp_all
  have M: "(lookup t)(fst kv \<mapsto> snd kv) ++ map_of kvs = lookup t ++ map_of (kv # kvs)"
  proof -
    from nin have "fst kv \<notin> dom (map_of kvs)"
      by (simp add: dom_map_of_conv_image_fst)
    then have "(lookup t)(fst kv \<mapsto> snd kv) ++ map_of kvs
        = (lookup t ++ map_of kvs)(fst kv \<mapsto> snd kv)"
      by (rule map_add_upd_left)
    also have "\<dots> = lookup t ++ (map_of kvs)(fst kv \<mapsto> snd kv)"
      by (simp only: map_add_upd)
    also have "(map_of kvs)(fst kv \<mapsto> snd kv) = map_of (kv # kvs)"
      by (simp only: map_of.simps)
    finally show ?thesis .
  qed
  have "lookup (insert_each hf (kv # kvs) t) = lookup (insert_each hf kvs ?t)"
    by (simp only: insert_each_Cons)
  also have "\<dots> = (lookup t)(fst kv \<mapsto> snd kv) ++ map_of kvs"
    by (simp only: L l)
  also note M
  finally have "lookup (insert_each hf (kv # kvs) t) = lookup t ++ map_of (kv # kvs)" .
  moreover from S s
  have "hm_size (insert_each hf (kv # kvs) t) = hm_size t + int (length (kv # kvs))"
    by simp
  ultimately show ?case by (rule conjI)
qed

lemma handle_resize_increase_within:
  assumes "4 * hm_size t \<le> 3 * int (hm_capacity t)"
  shows "handle_resize hf True t = t"
proof -
  from assms have "\<not> (get_load_factor t > UPPER_LOAD_FACTOR \<and> True)"
    by (simp add: load_factor_gt_upper)
  then have "handle_resize_grow hf True t = t" by (rule handle_resize_grow_stop)
  then show ?thesis
    by (simp add: handle_resize_def handle_resize_shrink_stop)
qed

lemma handle_resize_increase_once:
  assumes "0 < hm_capacity t" and "3 * int (hm_capacity t) < 4 * hm_size t"
    and "4 * hm_size t \<le> 6 * int (hm_capacity t)"
  shows "handle_resize hf True t
     = resize_map hf (hm_capacity t) (t\<lparr>hm_capacity := hm_capacity t * 2\<rparr>)"
proof -
  let ?t = "resize_map hf (hm_capacity t) (t\<lparr>hm_capacity := hm_capacity t * 2\<rparr>)"
  from assms have "get_load_factor t > UPPER_LOAD_FACTOR \<and> True"
    by (simp add: load_factor_gt_upper)
  then have "handle_resize_grow hf True t = handle_resize_grow hf True ?t"
    by (rule handle_resize_grow_step)
  moreover from assms have "\<not> (get_load_factor ?t > UPPER_LOAD_FACTOR \<and> True)"
    by (simp add: load_factor_gt_upper)
  then have "handle_resize_grow hf True ?t = ?t" by (rule handle_resize_grow_stop)
  ultimately show ?thesis
    by (simp add: handle_resize_def handle_resize_shrink_stop)
qed

subsection \<open>What the traversal visits\<close>

lemma next_index_loop_spec:
  "i \<le> hm_capacity t \<Longrightarrow> length (hm_map t) = hm_capacity t \<Longrightarrow>
   i \<le> next_index_loop t i \<and> next_index_loop t i \<le> hm_capacity t \<and>
   (next_index_loop t i < hm_capacity t \<longrightarrow> hm_map t ! next_index_loop t i \<noteq> []) \<and>
   concat (drop (next_index_loop t i) (hm_map t)) = concat (drop i (hm_map t))"
proof (induction t i rule: next_index_loop.induct)
  case (1 t i)
  show ?case
  proof (cases "i < hm_capacity t")
    case False
    with "1.prems" have "next_index_loop t i = hm_capacity t"
      by (simp add: next_index_loop_beyond)
    with False "1.prems" show ?thesis by simp
  next
    case True
    show ?thesis
    proof (cases "hm_map t ! i \<noteq> []")
      case ne: True
      with True have "next_index_loop t i = i"
        by (subst next_index_loop.simps) simp
      with True ne show ?thesis by simp
    next
      case e: False
      with True have n: "next_index_loop t i = next_index_loop t (i + 1)"
        by (subst next_index_loop.simps) simp
      from True "1.prems" have "drop i (hm_map t) = hm_map t ! i # drop (Suc i) (hm_map t)"
        by (simp add: Cons_nth_drop_Suc)
      with e have "concat (drop i (hm_map t)) = concat (drop (i + 1) (hm_map t))"
        by simp
      moreover from True e "1.IH" "1.prems"
      have "i + 1 \<le> next_index_loop t (i + 1) \<and> next_index_loop t (i + 1) \<le> hm_capacity t \<and>
        (next_index_loop t (i + 1) < hm_capacity t \<longrightarrow>
           hm_map t ! next_index_loop t (i + 1) \<noteq> []) \<and>
        concat (drop (next_index_loop t (i + 1)) (hm_map t))
          = concat (drop (i + 1) (hm_map t))"
        by simp
      ultimately show ?thesis by (simp add: n)
    qed
  qed
qed

lemma range_for_end: "range_for t (end_hm t) = Some []"
  by (subst range_for.simps) simp

lemma range_for_from:
  "length (hm_map t) = hm_capacity t \<Longrightarrow> map_index it < hm_capacity t \<Longrightarrow>
   element_index it < length (hm_map t ! map_index it) \<Longrightarrow>
   range_for t it = Some (drop (element_index it) (hm_map t ! map_index it)
                          @ concat (drop (Suc (map_index it)) (hm_map t)))"
proof (induction t it rule: range_for.induct)
  case (1 t it)
  let ?b = "hm_map t ! map_index it"
  let ?rest = "concat (drop (Suc (map_index it)) (hm_map t))"
  from "1.prems" have ne: "it \<noteq> end_hm t"
    by (auto simp: end_hm_def cend_def)
  from "1.prems" have ok: "map_index it < length (hm_map t) \<and> element_index it < length ?b"
    by simp
  from ne ok have unfold: "range_for t it
      = map_option (Cons (dereference t it)) (range_for t (increment t it))"
    by (subst range_for.simps) simp
  from "1.prems" have d: "drop (element_index it) ?b = ?b ! element_index it
      # drop (Suc (element_index it)) ?b"
    by (simp add: Cons_nth_drop_Suc)
  show ?case
  proof (cases "element_index it + 1 \<ge> length ?b")
    case False
    then have inc: "increment t it = it\<lparr>element_index := element_index it + 1\<rparr>"
      by (simp add: increment_def)
    from False "1.IH" [OF ne ok] "1.prems"
    have "range_for t (increment t it) = Some (drop (Suc (element_index it)) ?b @ ?rest)"
      by (simp add: inc)
    with d show ?thesis by (simp add: unfold dereference_def)
  next
    case True
    let ?j = "next_index_loop t (map_index it + 1)"
    from True have inc: "increment t it = \<lparr>map_index = ?j, element_index = 0\<rparr>"
      by (simp add: increment_def get_next_index_with_elements_def)
    from True "1.prems" have d1: "drop (element_index it) ?b = [dereference t it]"
      by (simp add: d dereference_def)
    from "1.prems" have "map_index it + 1 \<le> hm_capacity t" by simp
    from next_index_loop_spec [OF this "1.prems"(1)]
    have j: "?j \<le> hm_capacity t" "?j < hm_capacity t \<longrightarrow> hm_map t ! ?j \<noteq> []"
      "concat (drop ?j (hm_map t)) = ?rest"
      by simp_all
    have "range_for t (increment t it) = Some ?rest"
    proof (cases "?j < hm_capacity t")
      case False
      with j(1) have "increment t it = end_hm t"
        by (simp add: inc end_hm_def cend_def)
      moreover from False j(1) j(3) "1.prems"(1) have "?rest = []" by simp
      ultimately show ?thesis by (simp add: range_for_end)
    next
      case lt: True
      with j(2) have "0 < length (hm_map t ! ?j)" by simp
      with lt "1.IH" [OF ne ok] "1.prems"(1)
      have "range_for t (increment t it)
          = Some (hm_map t ! ?j @ concat (drop (Suc ?j) (hm_map t)))"
        by (simp add: inc)
      also from lt "1.prems"(1)
      have "hm_map t ! ?j @ concat (drop (Suc ?j) (hm_map t)) = concat (drop ?j (hm_map t))"
        by (simp add: Cons_nth_drop_Suc [symmetric])
      finally show ?thesis using j(3) by simp
    qed
    with d1 show ?thesis by (simp add: unfold)
  qed
qed

text \<open>
  From \<open>begin ()\<close> the traversal visits the elements of the buckets 1, 2, ... in order,
  and never those of bucket 0: \<open>cbegin\<close> asks for the next bucket with elements
  \<^emph>\<open>after\<close> index 0.
\<close>

lemma range_for_begin:
  assumes "length (hm_map t) = hm_capacity t"
  shows "range_for t (begin_hm t) = Some (concat (drop 1 (hm_map t)))"
proof (cases "1 \<le> hm_capacity t")
  case False
  then have "begin_hm t = end_hm t"
    by (simp add: begin_hm_def cbegin_def end_hm_def cend_def
        get_next_index_with_elements_def next_index_loop_beyond)
  with False assms show ?thesis by (simp add: range_for_end)
next
  case True
  let ?j = "next_index_loop t 1"
  have b: "begin_hm t = \<lparr>map_index = ?j, element_index = 0\<rparr>"
    by (simp add: begin_hm_def cbegin_def get_next_index_with_elements_def)
  from next_index_loop_spec [OF True assms]
  have j: "?j \<le> hm_capacity t" "?j < hm_capacity t \<longrightarrow> hm_map t ! ?j \<noteq> []"
    "concat (drop ?j (hm_map t)) = concat (drop 1 (hm_map t))"
    by simp_all
  show ?thesis
  proof (cases "?j < hm_capacity t")
    case False
    with j(1) have "begin_hm t = end_hm t"
      by (simp add: b end_hm_def cend_def)
    moreover from False j(1) j(3) assms have "concat (drop 1 (hm_map t)) = []" by simp
    ultimately show ?thesis by (simp add: range_for_end)
  next
    case lt: True
    with j(2) have "0 < length (hm_map t ! ?j)" by simp
    with lt assms have "range_for t (begin_hm t)
        = Some (hm_map t ! ?j @ concat (drop (Suc ?j) (hm_map t)))"
      by (simp add: b range_for_from)
    also from lt assms
    have "hm_map t ! ?j @ concat (drop (Suc ?j) (hm_map t)) = concat (drop ?j (hm_map t))"
      by (simp add: Cons_nth_drop_Suc [symmetric])
    finally show ?thesis using j(3) by simp
  qed
qed

subsection \<open>Capacity and load factor are kept in range\<close>

lemma balanced_iff:
  "balanced t \<longleftrightarrow> (\<exists>n. hm_capacity t = 2 ^ n) \<and> 4 * hm_size t \<le> 3 * int (hm_capacity t)"
proof -
  have "get_load_factor t \<le> UPPER_LOAD_FACTOR \<longleftrightarrow> 4 * hm_size t \<le> 3 * int (hm_capacity t)"
    if "hm_capacity t = 2 ^ n" for n
  proof -
    from that have "0 < hm_capacity t" by simp
    with load_factor_gt_upper [of t] show ?thesis by (simp add: not_less [symmetric])
  qed
  then show ?thesis unfolding balanced_def by blast
qed

lemma handle_resize_grow_balanced:
  "increase \<Longrightarrow> \<exists>n. hm_capacity t = 2 ^ n \<Longrightarrow> balanced (handle_resize_grow hf increase t)"
proof (induction hf increase t rule: handle_resize_grow.induct)
  case (1 hf increase t)
  show ?case
  proof (cases "get_load_factor t > UPPER_LOAD_FACTOR \<and> increase")
    case False
    with "1.prems" have "get_load_factor t \<le> UPPER_LOAD_FACTOR" by simp
    with "1.prems" False show ?thesis
      by (simp add: handle_resize_grow_stop balanced_def)
  next
    case True
    from "1.prems"(2) obtain n where "hm_capacity t = 2 ^ n" ..
    then have "hm_capacity
        (resize_map hf (hm_capacity t) (t\<lparr>hm_capacity := hm_capacity t * 2\<rparr>)) = 2 ^ Suc n"
      by simp
    then have "\<exists>m. hm_capacity
        (resize_map hf (hm_capacity t) (t\<lparr>hm_capacity := hm_capacity t * 2\<rparr>)) = 2 ^ m"
      by (rule exI)
    from "1.IH" [OF True "1.prems"(1) this] show ?thesis
      by (simp add: handle_resize_grow_step [OF True])
  qed
qed

lemma handle_resize_shrink_balanced:
  "balanced t \<Longrightarrow> balanced (handle_resize_shrink hf increase t)"
proof (induction hf increase t rule: handle_resize_shrink.induct)
  case (1 hf increase t)
  let ?c = "get_load_factor t < LOWER_LOAD_FACTOR \<and> \<not> increase \<and> hm_capacity t > MIN_CAPACITY"
  show ?case
  proof (cases ?c)
    case False
    with "1.prems" show ?thesis by (simp add: handle_resize_shrink_stop)
  next
    case True
    let ?t = "resize_map hf (hm_capacity t) (t\<lparr>hm_capacity := hm_capacity t div 2\<rparr>)"
    from "1.prems" obtain n where n: "hm_capacity t = 2 ^ n"
      by (auto simp: balanced_iff)
    with True have "n \<noteq> 0" by (cases "n = 0") (simp_all add: MIN_CAPACITY_def)
    then obtain m where m: "n = Suc m" by (cases n) auto
    with n have half: "hm_capacity t div 2 = 2 ^ m" and dbl: "hm_capacity t = 2 * 2 ^ m"
      by simp_all
    from True n have "4 * hm_size t < int (hm_capacity t)"
      by (simp add: load_factor_lt_lower)
    with dbl have "4 * hm_size t < 2 * (2 :: int) ^ m" by simp
    moreover have "(0 :: int) < 2 ^ m" by simp
    ultimately have "4 * hm_size t \<le> 3 * (2 :: int) ^ m" by linarith
    with half have "4 * hm_size ?t \<le> 3 * int (hm_capacity ?t)" by simp
    with half have "balanced ?t" unfolding balanced_iff by auto
    from "1.IH" [OF True this] show ?thesis
      by (simp add: handle_resize_shrink_step [OF True])
  qed
qed

lemma handle_resize_shrink_exit:
  "\<not> (get_load_factor (handle_resize_shrink hf increase t) < LOWER_LOAD_FACTOR
      \<and> \<not> increase \<and> hm_capacity (handle_resize_shrink hf increase t) > MIN_CAPACITY)"
proof (induction hf increase t rule: handle_resize_shrink.induct)
  case (1 hf increase t)
  let ?c = "get_load_factor t < LOWER_LOAD_FACTOR \<and> \<not> increase \<and> hm_capacity t > MIN_CAPACITY"
  show ?case
  proof (cases ?c)
    case False
    then show ?thesis unfolding handle_resize_shrink_stop [OF False] .
  next
    case True
    from "1.IH" [OF True] show ?thesis
      unfolding handle_resize_shrink_step [OF True] .
  qed
qed

lemma balanced_handle_resize:
  assumes "\<exists>n. hm_capacity t = 2 ^ n" and "increase \<or> balanced t"
  shows "balanced (handle_resize hf increase t)"
proof -
  have "balanced (handle_resize_grow hf increase t)"
  proof (cases increase)
    case True
    from this assms(1) show ?thesis by (rule handle_resize_grow_balanced)
  next
    case False
    with assms(2) show ?thesis by (simp add: handle_resize_grow_stop)
  qed
  then show ?thesis
    unfolding handle_resize_def by (rule handle_resize_shrink_balanced)
qed

lemma balanced_HashMap: "balanced HashMap"
proof -
  have "(16 :: nat) = 2 ^ 4" by simp
  then have "\<exists>n. (16 :: nat) = 2 ^ n" ..
  then show ?thesis
    by (simp add: balanced_iff HashMap_def INITIAL_CAPACITY_def INITIAL_SIZE_def)
qed

lemma balanced_empty:
  "\<exists>n. c = 2 ^ n \<Longrightarrow> balanced \<lparr>hm_map = m, hm_size = INITIAL_SIZE, hm_capacity = c\<rparr>"
  by (simp add: balanced_iff INITIAL_SIZE_def)

lemma balanced_clear: "balanced t \<Longrightarrow> balanced (clear t)"
  by (simp add: balanced_iff clear_def INITIAL_SIZE_def)

lemma balanced_hm_map_update [simp]: "balanced (t\<lparr>hm_map := m\<rparr>) = balanced t"
  by (simp add: balanced_def get_load_factor_def)

lemma balanced_insert_hm:
  assumes "balanced t"
  shows "balanced (snd (insert_hm hf key val t))"
proof (cases "contains_key hf t key")
  case True
  with assms show ?thesis by (simp add: insert_hm_present)
next
  case False
  from assms have "\<exists>n. hm_capacity ((push_element hf (key, val) t)\<lparr>hm_size := hm_size t + 1\<rparr>) = 2 ^ n"
    by (simp add: balanced_def)
  then have "balanced (handle_resize hf True
      ((push_element hf (key, val) t)\<lparr>hm_size := hm_size t + 1\<rparr>))"
    by (rule balanced_handle_resize) simp
  with False show ?thesis by (simp add: insert_hm_absent)
qed

lemma balanced_insert_each: "balanced t \<Longrightarrow> balanced (insert_each hf kvs t)"
  by (induction kvs arbitrary: t) (simp_all add: balanced_insert_hm)

lemma balanced_erase:
  assumes "balanced t"
  shows "balanced (snd (erase hf key t))"
proof (cases "erase_scan key (hm_map t ! get_hash_index hf t key) 0")
  case None
  with assms show ?thesis by (simp add: erase_def)
next
  case (Some j)
  let ?t2 = "t\<lparr>hm_map := (hm_map t)[get_hash_index hf t key :=
                 vector_erase (hm_map t ! get_hash_index hf t key) j],
               hm_size := hm_size t - 1\<rparr>"
  from assms have b2: "balanced ?t2" by (auto simp: balanced_iff)
  then have "\<exists>n. hm_capacity ?t2 = 2 ^ n" by (simp add: balanced_def)
  from this b2 have "balanced (handle_resize hf False ?t2)"
    by (intro balanced_handle_resize) simp_all
  with Some show ?thesis by (simp add: erase_def Let_def)
qed

lemma erase_lower_bound:
  assumes "fst (erase hf key t)" and "hm_capacity (snd (erase hf key t)) > 1"
  shows "LOWER_LOAD_FACTOR \<le> get_load_factor (snd (erase hf key t))"
proof (cases "erase_scan key (hm_map t ! get_hash_index hf t key) 0")
  case None
  with assms show ?thesis by (simp add: erase_def)
next
  case (Some j)
  let ?t2 = "t\<lparr>hm_map := (hm_map t)[get_hash_index hf t key :=
                 vector_erase (hm_map t ! get_hash_index hf t key) j],
               hm_size := hm_size t - 1\<rparr>"
  let ?g = "handle_resize_grow hf False ?t2"
  from Some have e: "snd (erase hf key t) = handle_resize_shrink hf False ?g"
    by (simp add: erase_def Let_def handle_resize_def)
  from handle_resize_shrink_exit [of hf False ?g] assms(2)
  show ?thesis by (simp add: e MIN_CAPACITY_def)
qed

subsection \<open>Reachable tables are well formed\<close>

lemma reachable_Dictionary_update:
  "reachable hf d \<Longrightarrow> reachable hf (Dictionary_update hf its d)"
  unfolding Dictionary_update_def
  by (induction its arbitrary: d) (simp_all add: reachable.update)

lemma reachable_Dictionary_erase:
  "reachable hf d \<Longrightarrow> Dictionary_erase hf key d = Inr (b, d') \<Longrightarrow> reachable hf d'"
  by (auto simp: Dictionary_erase_conv split: if_splits dest: reachable.erase [where key = key])

lemma map_fst_store_bucket [simp]: "map fst (store_bucket key val b) = map fst b"
  by (induction b) simp_all

lemma invar_bucket_update:
  assumes "invar hf t" and "map fst b' = map fst (hm_map t ! i)"
  shows "invar hf (t\<lparr>hm_map := (hm_map t)[i := b']\<rparr>)"
proof -
  let ?t = "t\<lparr>hm_map := (hm_map t)[i := b']\<rparr>"
  from assms(1) have p: "placed hf t" and d: "distinct (map fst (entries t))"
    and sz: "hm_size t = int (length (entries t))"
    by (simp_all add: invar_def)
  from p have len: "length (hm_map t) = hm_capacity t" by (simp add: placed_def)
  have keys: "map fst (entries ?t) = map fst (entries t)"
    using assms(2) by (simp add: entries_def map_fst_concat_update)
  have "get_hash_index hf ?t (fst e) = n"
    if "n < hm_capacity ?t" and "e \<in> set (hm_map ?t ! n)" for n e
  proof -
    from that len have "fst e \<in> set (map fst (hm_map t ! n))"
    proof (cases "n = i")
      case True
      with that len have "e \<in> set b'" by simp
      then have "fst e \<in> set (map fst b')" by simp
      with True assms(2) show ?thesis by (simp only:)
    next
      case False
      with that show ?thesis by simp
    qed
    then obtain e' where e': "e' \<in> set (hm_map t ! n)" "fst e' = fst e" by auto
    from that have "n < hm_capacity t" by simp
    with p e' have "get_hash_index hf t (fst e') = n"
      unfolding placed_def by blast
    with e' show ?thesis by (simp add: get_hash_index_def)
  qed
  with len p have p1: "placed hf ?t"
    unfolding placed_def by simp
  from keys have "length (entries ?t) = length (entries t)"
    by (metis length_map)
  with p1 keys d sz show ?thesis
    by (simp add: invar_def)
qed

lemma invar_store_at: "invar hf t \<Longrightarrow> invar hf (store_at hf key val t)"
  by (simp add: store_at_def Let_def invar_bucket_update)

lemma balanced_store_at: "balanced t \<Longrightarrow> balanced (store_at hf key val t)"
  by (simp add: store_at_def Let_def)

lemma balanced_overwrite_then_insert:
  "balanced t \<Longrightarrow> balanced (overwrite_then_insert hf key val t)"
  by (simp add: overwrite_then_insert_def Let_def balanced_insert_hm)

lemma invar_empty_buckets:
  "0 < c \<Longrightarrow> invar hf \<lparr>hm_map = replicate c [], hm_size = INITIAL_SIZE, hm_capacity = c\<rparr>"
  by (simp add: invar_def placed_def entries_def INITIAL_SIZE_def)

lemma HashMap_copy_insert_each:
  "HashMap_copy hf hm = Some t \<Longrightarrow>
   \<exists>es. t = insert_each hf es
     \<lparr>hm_map = replicate (hm_capacity hm) [], hm_size = INITIAL_SIZE,
      hm_capacity = hm_capacity hm\<rparr>"
  by (auto simp: HashMap_copy_def insert_each_def Let_def)

lemma assign_insert_each:
  "assign hf this hm = Some t \<Longrightarrow> \<exists>es. t = insert_each hf es (clear this)"
  by (auto simp: assign_def insert_each_def)

lemma snd_index_access:
  "snd (index_access hf dflt key t) = t
   \<or> snd (index_access hf dflt key t) = snd (insert_hm hf key dflt t)"
  by (simp add: index_access_def Let_def split: sum.splits)

lemma fold_overwrite_then_insert_balanced:
  "balanced t \<Longrightarrow> balanced (fold (\<lambda>it. overwrite_then_insert hf (fst it) (snd it)) its t)"
  by (induction its arbitrary: t) (simp_all add: balanced_overwrite_then_insert)

lemma balanced_HashMap_vectors:
  assumes "HashMap_vectors hf keys vals = Inr t"
  shows "balanced t"
proof -
  from assms have "length keys = length vals"
    by (simp add: HashMap_vectors_def split: if_splits)
  from HashMap_vectors_fold [OF this, of hf] assms
    fold_overwrite_then_insert_balanced [OF balanced_HashMap, of hf "zip keys vals"]
  show ?thesis by simp
qed

lemma reachable_invar: "reachable hf t \<Longrightarrow> invar hf t"
proof (induction rule: reachable.induct)
  case default
  show ?case by (rule invar_HashMap)
next
  case (vectors keys vals t)
  then show ?case by (rule invar_HashMap_vectors)
next
  case (copy hm t)
  from copy.IH have "0 < hm_capacity hm" by (simp add: invar_def placed_def)
  with HashMap_copy_insert_each [OF copy.hyps(2)] show ?case
    by (auto intro: invar_insert_each invar_empty_buckets)
next
  case (insert t key val)
  then show ?case by (simp add: invar_insert_hm)
next
  case (erase t key)
  then show ?case by (simp add: invar_erase)
next
  case (clear t)
  then have "0 < hm_capacity t" by (simp add: invar_def placed_def)
  then show ?case by (rule invar_clear)
next
  case (assign t hm t')
  from assign.IH(1) have "0 < hm_capacity t" by (simp add: invar_def placed_def)
  then have "invar hf (clear t)" by (rule invar_clear)
  with assign_insert_each [OF assign.hyps(3)] show ?case
    by (auto intro: invar_insert_each)
next
  case (index_access t dflt key)
  with snd_index_access [of hf dflt key t] show ?case
    by (auto simp: invar_insert_hm)
next
  case (store t key val)
  then show ?case by (simp add: invar_store_at)
next
  case (update t key val)
  then show ?case by (simp add: overwrite_then_insert_invar)
qed

lemma reachable_balanced: "reachable hf t \<Longrightarrow> balanced t"
proof (induction rule: reachable.induct)
  case default
  show ?case by (rule balanced_HashMap)
next
  case (vectors keys vals t)
  then show ?case by (rule balanced_HashMap_vectors)
next
  case (copy hm t)
  from copy.IH have "\<exists>n. hm_capacity hm = 2 ^ n" by (simp add: balanced_def)
  with HashMap_copy_insert_each [OF copy.hyps(2)] show ?case
    by (auto intro!: balanced_insert_each balanced_empty)
next
  case (insert t key val)
  then show ?case by (simp add: balanced_insert_hm)
next
  case (erase t key)
  then show ?case by (simp add: balanced_erase)
next
  case (clear t)
  then show ?case by (simp add: balanced_clear)
next
  case (assign t hm t')
  from assign.IH(1) have "balanced (clear t)" by (rule balanced_clear)
  with assign_insert_each [OF assign.hyps(3)] show ?case
    by (auto intro: balanced_insert_each)
next
  case (index_access t dflt key)
  with snd_index_access [of hf dflt key t] show ?case
    by (auto simp: balanced_insert_hm)
next
  case (store t key val)
  then show ?case by (simp add: balanced_store_at)
next
  case (update t key val)
  then show ?case by (simp add: balanced_overwrite_then_insert)
qed

subsection \<open>What copying and comparing do\<close>

text \<open>
  On a well-formed table the traversal never reads out of bounds, so the copy constructor,
  the assignment and the comparison all return. They work on the entries of the buckets
  from index 1 on.
\<close>

lemma insert_each_same_capacity:
  "invar hf t \<Longrightarrow> distinct (map fst kvs) \<Longrightarrow> fst ` set kvs \<inter> dom (lookup t) = {} \<Longrightarrow>
   4 * (hm_size t + int (length kvs)) \<le> 3 * int (hm_capacity t) \<Longrightarrow>
   hm_capacity (insert_each hf kvs t) = hm_capacity t"
proof (induction kvs arbitrary: t)
  case Nil
  then show ?case by simp
next
  case (Cons kv kvs)
  let ?p = "(push_element hf (fst kv, snd kv) t)\<lparr>hm_size := hm_size t + 1\<rparr>"
  let ?t = "snd (insert_hm hf (fst kv) (snd kv) t)"
  from Cons.prems have new: "\<not> contains_key hf t (fst kv)"
    by (simp add: contains_key_lookup)
  from Cons.prems have "4 * hm_size ?p \<le> 3 * int (hm_capacity ?p)" by simp
  then have "handle_resize hf True ?p = ?p" by (rule handle_resize_increase_within)
  with new have t: "?t = ?p" by (simp add: insert_hm_absent)
  then have c: "hm_capacity ?t = hm_capacity t" and s: "hm_size ?t = hm_size t + 1"
    by simp_all
  from Cons.prems(1) have i: "invar hf ?t" by (rule invar_insert_hm)
  from lookup_insert_hm [OF Cons.prems(1), of "fst kv" "snd kv"] Cons.prems(3)
  have l: "lookup ?t = (lookup t)(fst kv \<mapsto> snd kv)" by simp
  from Cons.prems have d: "distinct (map fst kvs)" and nin: "fst kv \<notin> fst ` set kvs"
    by simp_all
  from Cons.prems nin have f: "fst ` set kvs \<inter> dom (lookup ?t) = {}"
    by (auto simp: l)
  from Cons.prems(4) have "4 * (hm_size ?t + int (length kvs)) \<le> 3 * int (hm_capacity ?t)"
    by (simp add: c s)
  from Cons.IH [OF i d f this] c show ?case by simp
qed

lemma HashMap_copy_entries:
  assumes "invar hf hm" and "balanced hm"
  shows "\<exists>t. HashMap_copy hf hm = Some t \<and> invar hf t
    \<and> hm_capacity t = hm_capacity hm
    \<and> lookup t = map_of (concat (drop 1 (hm_map hm)))"
proof -
  let ?es = "concat (drop 1 (hm_map hm))"
  let ?t0 = "\<lparr>hm_map = replicate (hm_capacity hm) [], hm_size = INITIAL_SIZE,
              hm_capacity = hm_capacity hm\<rparr> :: ('a, 'b) hash_map"
  from assms(1) have len: "length (hm_map hm) = hm_capacity hm" and pos: "0 < hm_capacity hm"
    and d: "distinct (map fst (entries hm))" and sz: "hm_size hm = int (length (entries hm))"
    by (simp_all add: invar_def placed_def)
  from len have c: "HashMap_copy hf hm = Some (insert_each hf ?es ?t0)"
    by (simp add: HashMap_copy_def Let_def range_for_begin insert_each_def)
  from pos have i0: "invar hf ?t0" by (rule invar_empty_buckets)
  have l0: "lookup ?t0 = Map.empty" by (simp add: lookup_def entries_def)
  have "entries hm = concat (take 1 (hm_map hm)) @ ?es"
    unfolding entries_def by (metis append_take_drop_id concat_append)
  with d sz have des: "distinct (map fst ?es)" and "int (length ?es) \<le> hm_size hm"
    by simp_all
  with assms(2) have "4 * (hm_size ?t0 + int (length ?es)) \<le> 3 * int (hm_capacity ?t0)"
    by (simp add: balanced_iff INITIAL_SIZE_def)
  with i0 des l0 have "hm_capacity (insert_each hf ?es ?t0) = hm_capacity ?t0"
    by (intro insert_each_same_capacity) simp_all
  moreover from insert_each_fresh [OF i0 des] l0
  have "lookup (insert_each hf ?es ?t0) = map_of ?es" by simp
  moreover from i0 have "invar hf (insert_each hf ?es ?t0)" by (rule invar_insert_each)
  ultimately show ?thesis using c by simp
qed

lemma equal_loop_iff:
  "equal_loop hf rhs es \<longleftrightarrow> (\<forall>e \<in> set es. at_hm hf rhs (fst e) = Inr (snd e))"
  by (induction es) (auto split: sum.splits)

lemma operator_eq_entries:
  assumes "length (hm_map this) = hm_capacity this"
  shows "operator_eq hf this rhs =
     Some (hm_size this = hm_size rhs
           \<and> (\<forall>e \<in> set (concat (drop 1 (hm_map this))). at_hm hf rhs (fst e) = Inr (snd e)))"
  using assms by (simp add: operator_eq_def range_for_begin equal_loop_iff)

subsection \<open>The lower threshold, once reached, is kept\<close>

lemma lower_bound_iff:
  "lower_bound t \<longleftrightarrow> (hm_capacity t > 1 \<longrightarrow> int (hm_capacity t) \<le> 4 * hm_size t)"
proof (cases "hm_capacity t > 1")
  case False
  then show ?thesis by (simp add: lower_bound_def)
next
  case True
  then have "0 < hm_capacity t" by simp
  from load_factor_lt_lower [OF this] True show ?thesis
    by (simp add: lower_bound_def not_less [symmetric])
qed

lemma lower_bound_hm_map_update [simp]: "lower_bound (t\<lparr>hm_map := m\<rparr>) = lower_bound t"
  by (simp add: lower_bound_def get_load_factor_def)

lemma handle_resize_grow_lower_bound:
  "lower_bound t \<Longrightarrow> lower_bound (handle_resize_grow hf increase t)"
proof (induction hf increase t rule: handle_resize_grow.induct)
  case (1 hf increase t)
  show ?case
  proof (cases "get_load_factor t > UPPER_LOAD_FACTOR \<and> increase")
    case False
    with "1.prems" show ?thesis by (simp add: handle_resize_grow_stop)
  next
    case True
    let ?t = "resize_map hf (hm_capacity t) (t\<lparr>hm_capacity := hm_capacity t * 2\<rparr>)"
    from True have "3 * int (hm_capacity t) < 4 * hm_size t" and "0 < hm_capacity t"
      by (simp_all add: load_factor_gt_upper)
    then have "int (hm_capacity ?t) \<le> 4 * hm_size ?t" by simp
    then have "lower_bound ?t" by (simp add: lower_bound_iff)
    from "1.IH" [OF True this] show ?thesis
      by (simp add: handle_resize_grow_step [OF True])
  qed
qed

lemma lower_bound_insert_hm:
  assumes "lower_bound t"
  shows "lower_bound (snd (insert_hm hf key val t))"
proof (cases "contains_key hf t key")
  case True
  with assms show ?thesis by (simp add: insert_hm_present)
next
  case False
  let ?p = "(push_element hf (key, val) t)\<lparr>hm_size := hm_size t + 1\<rparr>"
  from assms have "lower_bound ?p"
    by (cases "hm_capacity t > 1") (simp_all add: lower_bound_iff)
  then have "lower_bound (handle_resize_grow hf True ?p)"
    by (rule handle_resize_grow_lower_bound)
  with False show ?thesis
    by (simp add: insert_hm_absent handle_resize_def handle_resize_shrink_stop)
qed

lemma erase_not_found: "\<not> fst (erase hf key t) \<Longrightarrow> snd (erase hf key t) = t"
  by (simp add: erase_def Let_def split: option.splits)

lemma lower_bound_erase_found: "fst (erase hf key t) \<Longrightarrow> lower_bound (snd (erase hf key t))"
  by (simp add: lower_bound_def erase_lower_bound)

lemma lower_bound_erase: "lower_bound t \<Longrightarrow> lower_bound (snd (erase hf key t))"
  by (cases "fst (erase hf key t)") (simp_all add: lower_bound_erase_found erase_not_found)

lemma lower_bound_store_at: "lower_bound t \<Longrightarrow> lower_bound (store_at hf key val t)"
  by (simp add: store_at_def Let_def)

lemma lower_bound_overwrite_then_insert:
  "lower_bound t \<Longrightarrow> lower_bound (overwrite_then_insert hf key val t)"
  by (simp add: overwrite_then_insert_def Let_def lower_bound_insert_hm)

lemma lower_bound_index_access:
  "lower_bound t \<Longrightarrow> lower_bound (snd (index_access hf dflt key t))"
  using snd_index_access [of hf dflt key t] by (auto simp: lower_bound_insert_hm)

lemma later_lower_bound: "later hf t t' \<Longrightarrow> lower_bound t \<Longrightarrow> lower_bound t'"
proof (induction rule: later.induct)
  case same
  then show ?case .
next
  case (insert t' key val)
  then show ?case by (intro lower_bound_insert_hm) simp
next
  case (erase t' key)
  then show ?case by (intro lower_bound_erase) simp
next
  case (index_access t' dflt key)
  then show ?case by (intro lower_bound_index_access) simp
next
  case (store t' key val)
  then show ?case by (intro lower_bound_store_at) simp
next
  case (update t' key val)
  then show ?case by (intro lower_bound_overwrite_then_insert) simp
qed

lemma later_reachable: "later hf t t' \<Longrightarrow> reachable hf t \<Longrightarrow> reachable hf t'"
proof (induction rule: later.induct)
  case same
  then show ?case .
next
  case (insert t' key val)
  then show ?case by (intro reachable.insert) simp
next
  case (erase t' key)
  then show ?case by (intro reachable.erase) simp
next
  case (index_access t' dflt key)
  then show ?case by (intro reachable.index_access) simp
next
  case (store t' key val)
  then show ?case by (intro reachable.store) simp
next
  case (update t' key val)
  then show ?case by (intro reachable.update) simp
qed

lemma later_Dictionary_update: "later hf t t' \<Longrightarrow> later hf t (Dictionary_update hf its t')"
  unfolding Dictionary_update_def
  by (induction its arbitrary: t') (simp_all add: later.update)

lemma later_Dictionary_erase:
  assumes "later hf t t'" and "Dictionary_erase hf key t' = Inr (b, t'')"
  shows "later hf t t''"
proof -
  from assms(2) have "t'' = snd (erase hf key t')"
    by (simp add: Dictionary_erase_conv split: if_splits)
  with later.erase [OF assms(1), of key] show ?thesis by simp
qed

subsection \<open>The concrete tables\<close>

lemma invar_table_0_5: "invar hash_int table_0_5"
  unfolding table_0_5_def by (intro invar_insert_hm invar_HashMap)

lemma dict_abc_constructed:
  "HashMap_vectors hash_string [''a'', ''b'', ''c''] [''1'', ''2'', ''3''] = Inr dict_abc"
  by (simp add: dict_abc_def HashMap_vectors_fold)

lemma invar_dict_abc: "invar hash_string dict_abc"
  using dict_abc_constructed by (rule invar_HashMap_vectors)

lemma reachable_table_0_5: "reachable hash_int table_0_5"
  unfolding table_0_5_def by (intro reachable.insert reachable.default)

text \<open>
  The operations left out of \<open>later\<close> do lose the lower threshold. A table of six
  entries from which one is erased has reached it; after \<open>clear\<close> and one \<open>insert\<close>
  the load factor is 1/16. A table whose entries lie in bucket 0 but for one has reached
  it; its copy has the capacity 16 and the one entry.
\<close>

lemma lower_bound_lost_by_clear:
  "fst (erase hash_int 5 (insert_each hash_int (take 6 thirteen_pairs) HashMap))
   \<and> get_load_factor (snd (erase hash_int 5
         (insert_each hash_int (take 6 thirteen_pairs) HashMap))) = 5 / 16
   \<and> hm_capacity (snd (insert_hm hash_int 0 0 (clear (snd (erase hash_int 5
         (insert_each hash_int (take 6 thirteen_pairs) HashMap)))))) = 16
   \<and> get_load_factor (snd (insert_hm hash_int 0 0 (clear (snd (erase hash_int 5
         (insert_each hash_int (take 6 thirteen_pairs) HashMap)))))) = 1 / 16"
  by code_simp

lemma lower_bound_lost_by_copy:
  "fst (erase hash_int 2
     (insert_each hash_int [(0, 0), (16, 0), (32, 0), (48, 0), (1, 0), (2, 0)] HashMap))
   \<and> get_load_factor (snd (erase hash_int 2
         (insert_each hash_int [(0, 0), (16, 0), (32, 0), (48, 0), (1, 0), (2, 0)] HashMap)))
       = 5 / 16
   \<and> map_option hm_capacity (HashMap_copy hash_int (snd (erase hash_int 2
         (insert_each hash_int [(0, 0), (16, 0), (32, 0), (48, 0), (1, 0), (2, 0)] HashMap))))
       = Some 16
   \<and> map_option get_load_factor (HashMap_copy hash_int (snd (erase hash_int 2
         (insert_each hash_int [(0, 0), (16, 0), (32, 0), (48, 0), (1, 0), (2, 0)] HashMap))))
       = Some (1 / 16)"
  by code_simp

section \<open>The claims\<close>

text \<open>
  Each claim of the specification is stated for the model above. Where a claim speaks of
  every table, the theorem is about every well-formed table (\<open>invar\<close>), which covers
  every reachable one (lemma \<open>reachable_invar\<close>).
\<close>

text \<open>
  C1. The claim is that a traversal from \<open>begin ()\<close> to \<open>end ()\<close> visits every live
  entry once, \<open>begin ()\<close> pointing at the first non-empty bucket from index 0 on. The
  code does not do this: \<open>cbegin\<close> asks for the next bucket with elements after index
  0, so the search starts at index 1 and no traversal visits the elements of bucket 0
  (lemma \<open>range_for_begin\<close>). In the table holding the keys 0 and 5, whose entries lie
  in the buckets 0 and 5, \<open>begin ()\<close> points at bucket 5 and the traversal visits the
  entry of key 5 only; in the table holding the key 0 alone, \<open>begin ()\<close> is \<open>end ()\<close>
  and the traversal visits nothing.
\<close>

theorem traversal_misses_bucket_0:
  "table_0_5 = \<lparr>hm_map = [[(0, 1)], [], [], [], [], [(5, 7)], [], [],
                             [], [], [], [], [], [], [], []],
                 hm_size = 2, hm_capacity = 16\<rparr>
   \<and> entries table_0_5 = [(0, 1), (5, 7)]
   \<and> begin_hm table_0_5 = \<lparr>map_index = 5, element_index = 0\<rparr>
   \<and> range_for table_0_5 (begin_hm table_0_5) = Some [(5, 7)]
   \<and> entries table_0_1 = [(0, 1)]
   \<and> begin_hm table_0_1 = end_hm table_0_1
   \<and> range_for table_0_1 (begin_hm table_0_1) = Some []"
  by code_simp

text \<open>
  C2. The claim fails as stated: \<open>insert\<close> never shrinks the table (it calls
  \<open>handle_resize (true)\<close>, and the second loop runs only for \<open>false\<close>), so after two
  insertions into a default-constructed table the load factor is 2/16, below the lower
  threshold, with capacity above 1 and size above 0.
\<close>

theorem load_factor_below_lower_threshold:
  "reachable hash_int table_0_5
   \<and> hm_capacity table_0_5 > 1
   \<and> hm_size table_0_5 > 0
   \<and> get_load_factor table_0_5 < LOWER_LOAD_FACTOR"
proof -
  have "hm_capacity table_0_5 > 1" "hm_size table_0_5 > 0"
    "get_load_factor table_0_5 < LOWER_LOAD_FACTOR"
    by code_simp+
  with reachable_table_0_5 show ?thesis by simp
qed

text \<open>
  C2, amended. In every reachable table the capacity is a power of two (so at least 1)
  and the load factor is at most the upper threshold 0.75. The lower threshold is not
  there from the start, but a successful \<open>erase\<close> establishes it and it is kept from
  then on: in the table a successful \<open>erase\<close> leaves, and in every table that later
  calls of \<open>insert\<close>, \<open>erase\<close>, \<open>operator[]\<close>, writes through a returned reference
  and \<open>Dictionary::update\<close> make of it, the load factor is at least 0.25 whenever the
  capacity is above 1. More generally these operations keep the lower threshold in any
  table that has reached it. Only \<open>clear\<close>, \<open>operator=\<close> and the constructors, which
  start a table afresh, can lose it.
\<close>

theorem reachable_capacity_and_load_factor:
  assumes "reachable hf t"
  shows "(\<exists>n. hm_capacity t = 2 ^ n)
    \<and> 1 \<le> hm_capacity t
    \<and> get_load_factor t \<le> UPPER_LOAD_FACTOR
    \<and> (\<forall>key. fst (erase hf key t) \<and> hm_capacity (snd (erase hf key t)) > 1
          \<longrightarrow> LOWER_LOAD_FACTOR \<le> get_load_factor (snd (erase hf key t)))
    \<and> (\<forall>key t'. fst (erase hf key t) \<and> later hf (snd (erase hf key t)) t'
          \<longrightarrow> reachable hf t'
            \<and> get_load_factor t' \<le> UPPER_LOAD_FACTOR
            \<and> (hm_capacity t' > 1 \<longrightarrow> LOWER_LOAD_FACTOR \<le> get_load_factor t'))
    \<and> (\<forall>t'. (hm_capacity t > 1 \<longrightarrow> LOWER_LOAD_FACTOR \<le> get_load_factor t) \<and> later hf t t'
          \<longrightarrow> reachable hf t'
            \<and> get_load_factor t' \<le> UPPER_LOAD_FACTOR
            \<and> (hm_capacity t' > 1 \<longrightarrow> LOWER_LOAD_FACTOR \<le> get_load_factor t'))"
proof -
  from assms have "balanced t" by (rule reachable_balanced)
  moreover from assms have "invar hf t" by (rule reachable_invar)
  then have "1 \<le> hm_capacity t" by (simp add: invar_def placed_def)
  ultimately have basic: "(\<exists>n. hm_capacity t = 2 ^ n) \<and> 1 \<le> hm_capacity t
      \<and> get_load_factor t \<le> UPPER_LOAD_FACTOR"
    by (simp add: balanced_def)
  have after: "LOWER_LOAD_FACTOR \<le> get_load_factor (snd (erase hf key t))"
    if "fst (erase hf key t) \<and> hm_capacity (snd (erase hf key t)) > 1" for key
    using that by (simp add: erase_lower_bound)
  have kept: "reachable hf t' \<and> get_load_factor t' \<le> UPPER_LOAD_FACTOR
      \<and> (hm_capacity t' > 1 \<longrightarrow> LOWER_LOAD_FACTOR \<le> get_load_factor t')"
    if "reachable hf s" and "lower_bound s" and "later hf s t'" for s t'
  proof -
    from that(3,1) have r: "reachable hf t'" by (rule later_reachable)
    then have "balanced t'" by (rule reachable_balanced)
    moreover from that(3,2) have "lower_bound t'" by (rule later_lower_bound)
    ultimately show ?thesis using r by (simp add: balanced_def lower_bound_def)
  qed
  have settled: "reachable hf t' \<and> get_load_factor t' \<le> UPPER_LOAD_FACTOR
      \<and> (hm_capacity t' > 1 \<longrightarrow> LOWER_LOAD_FACTOR \<le> get_load_factor t')"
    if "fst (erase hf key t) \<and> later hf (snd (erase hf key t)) t'" for key t'
  proof -
    from assms have r: "reachable hf (snd (erase hf key t))" by (rule reachable.erase)
    from that have b: "lower_bound (snd (erase hf key t))"
      by (simp add: lower_bound_erase_found)
    from that have l: "later hf (snd (erase hf key t)) t'" by simp
    from r b l show ?thesis by (rule kept)
  qed
  have general: "reachable hf t' \<and> get_load_factor t' \<le> UPPER_LOAD_FACTOR
      \<and> (hm_capacity t' > 1 \<longrightarrow> LOWER_LOAD_FACTOR \<le> get_load_factor t')"
    if "(hm_capacity t > 1 \<longrightarrow> LOWER_LOAD_FACTOR \<le> get_load_factor t) \<and> later hf t t'" for t'
  proof -
    from that have b: "lower_bound t" and l: "later hf t t'"
      by (simp_all add: lower_bound_def)
    from assms b l show ?thesis by (rule kept)
  qed
  from basic after settled general show ?thesis by blast
qed

theorem reachable_capacity_and_load_factor_witness:
  "reachable hash_int table_0_5
   \<and> hm_capacity table_0_5 = 2 ^ 4
   \<and> get_load_factor table_0_5 = 1 / 8
   \<and> get_load_factor table_0_5 \<le> UPPER_LOAD_FACTOR
   \<and> fst (erase hash_int 5 table_0_5)
   \<and> hm_capacity (snd (erase hash_int 5 table_0_5)) = 4
   \<and> get_load_factor (snd (erase hash_int 5 table_0_5)) = 1 / 4
   \<and> LOWER_LOAD_FACTOR \<le> get_load_factor (snd (erase hash_int 5 table_0_5))
   \<and> later hash_int (snd (erase hash_int 5 table_0_5))
         (snd (insert_hm hash_int 3 9 (snd (erase hash_int 5 table_0_5))))
   \<and> hm_capacity (snd (insert_hm hash_int 3 9 (snd (erase hash_int 5 table_0_5)))) = 4
   \<and> get_load_factor (snd (insert_hm hash_int 3 9 (snd (erase hash_int 5 table_0_5)))) = 1 / 2
   \<and> LOWER_LOAD_FACTOR
        \<le> get_load_factor (snd (insert_hm hash_int 3 9 (snd (erase hash_int 5 table_0_5))))
   \<and> get_load_factor (snd (insert_hm hash_int 3 9 (snd (erase hash_int 5 table_0_5))))
        \<le> UPPER_LOAD_FACTOR"
proof -
  let ?s = "snd (erase hash_int 5 table_0_5)"
  let ?t = "snd (insert_hm hash_int 3 9 ?s)"
  have e: "fst (erase hash_int 5 table_0_5)"
    "hm_capacity ?s = 4"
    "get_load_factor ?s = 1 / 4"
    "hm_capacity table_0_5 = 2 ^ 4"
    "get_load_factor table_0_5 = 1 / 8"
    "hm_capacity ?t = 4"
    "get_load_factor ?t = 1 / 2"
    by code_simp+
  have l: "later hash_int ?s ?t" by (intro later.insert later.same)
  note r = reachable_capacity_and_load_factor [OF reachable_table_0_5]
  from r have "get_load_factor table_0_5 \<le> UPPER_LOAD_FACTOR" by blast
  moreover from r e(1,2)
  have "LOWER_LOAD_FACTOR \<le> get_load_factor ?s"
    by simp
  moreover from r e(1) l
  have "get_load_factor ?t \<le> UPPER_LOAD_FACTOR
      \<and> (hm_capacity ?t > 1 \<longrightarrow> LOWER_LOAD_FACTOR \<le> get_load_factor ?t)"
    by blast
  ultimately show ?thesis using e l reachable_table_0_5 by simp
qed

text \<open>
  C3. The claim is that a copy has the source's capacity, size and entries. The code does
  not do this: the copy constructor inserts what the traversal of the source visits, and so
  drops the entries of the source's bucket 0 (lemma \<open>HashMap_copy_entries\<close>). The copy of
  the table holding the keys 0 and 5 has the source's capacity but size 1, and \<open>at (0)\<close>
  throws on it.
\<close>

theorem copy_misses_bucket_0:
  "hm_size table_0_5 = 2
   \<and> at_hm hash_int table_0_5 0 = Inr 1
   \<and> HashMap_copy hash_int table_0_5 = Some copy_0_5
   \<and> hm_capacity copy_0_5 = hm_capacity table_0_5
   \<and> hm_size copy_0_5 = 1
   \<and> at_hm hash_int copy_0_5 0 = Inl KeyNotFound
   \<and> at_hm hash_int copy_0_5 5 = Inr 7"
  by code_simp

text \<open>
  C4. In a well-formed table, \<open>erase (key)\<close> of a key that is present returns
  \<open>true\<close>, takes exactly one off the size and leaves a table that no longer contains
  the key (and binds every other key as before); of a key that is absent it returns
  \<open>false\<close> and leaves the table as it is. \<open>Dictionary::erase\<close> does the same for a
  present key and throws \<open>InvalidKey\<close> for an absent one.
\<close>

theorem erase_present_or_absent:
  assumes "invar hf t" and "invar hs d"
  shows "(contains_key hf t key \<longrightarrow>
            fst (erase hf key t)
          \<and> hm_size (snd (erase hf key t)) = hm_size t - 1
          \<and> \<not> contains_key hf (snd (erase hf key t)) key
          \<and> lookup (snd (erase hf key t)) = (lookup t)(key := None))
    \<and> (\<not> contains_key hf t key \<longrightarrow> erase hf key t = (False, t))
    \<and> (contains_key hs d skey \<longrightarrow>
            Dictionary_erase hs skey d = Inr (erase hs skey d) \<and> fst (erase hs skey d))
    \<and> (\<not> contains_key hs d skey \<longrightarrow>
            Dictionary_erase hs skey d = Inl (InvalidKey INVALID_KEY))"
proof -
  have "\<not> contains_key hf (snd (erase hf key t)) key" if "contains_key hf t key"
  proof -
    from assms(1) that have "invar hf (snd (erase hf key t))" by (rule erase_present)
    then show ?thesis
      by (simp add: contains_key_lookup lookup_erase [OF assms(1)])
  qed
  moreover have "fst (erase hs skey d)" if "contains_key hs d skey"
    using assms(2) that by (rule erase_present)
  moreover have "\<not> fst (erase hs skey d)" if "\<not> contains_key hs d skey"
    using that by (simp add: erase_absent)
  ultimately show ?thesis
    using assms
    by (simp add: erase_present erase_absent lookup_erase Dictionary_erase_conv)
qed

theorem erase_present_or_absent_witness:
  "invar hash_int table_0_5 \<and> invar hash_string dict_abc
   \<and> contains_key hash_int table_0_5 5
   \<and> fst (erase hash_int 5 table_0_5)
   \<and> hm_size table_0_5 = 2 \<and> hm_size (snd (erase hash_int 5 table_0_5)) = 1
   \<and> \<not> contains_key hash_int (snd (erase hash_int 5 table_0_5)) 5
   \<and> \<not> contains_key hash_int table_0_5 3
   \<and> erase hash_int 3 table_0_5 = (False, table_0_5)
   \<and> contains_key hash_string dict_abc ''b''
   \<and> Dictionary_erase hash_string ''b'' dict_abc = Inr (erase hash_string ''b'' dict_abc)
   \<and> hm_size dict_abc = 3 \<and> hm_size (snd (erase hash_string ''b'' dict_abc)) = 2
   \<and> \<not> contains_key hash_string (snd (erase hash_string ''b'' dict_abc)) ''b''
   \<and> Dictionary_erase hash_string ''b'' (snd (erase hash_string ''b'' dict_abc))
       = Inl (InvalidKey INVALID_KEY)"
proof -
  let ?d = "snd (erase hash_string ''b'' dict_abc)"
  have c: "contains_key hash_int table_0_5 5" "\<not> contains_key hash_int table_0_5 3"
    "contains_key hash_string dict_abc ''b''"
    by code_simp+
  have s: "hm_size table_0_5 = 2" "hm_size dict_abc = 3" by code_simp+
  have i: "invar hash_string ?d" using invar_dict_abc by (rule invar_erase)
  from erase_present_or_absent [OF invar_table_0_5 invar_dict_abc, of 5 "''b''"]
    erase_present_or_absent [OF invar_dict_abc i, of "''b''" "''b''"]
    erase_present_or_absent [OF invar_table_0_5 i, of 3 "''b''"]
  show ?thesis
    by (simp add: c s invar_table_0_5 invar_dict_abc)
qed

text \<open>
  C5. In a table in which \<open>at (k)\<close> returns \<open>v\<close>, \<open>insert (k, v2)\<close> returns
  \<open>false\<close> and leaves the table as it is, for every \<open>v2\<close> (in particular for
  \<open>v2 \<noteq> v\<close>): the size is unchanged and \<open>at (k)\<close> still returns \<open>v\<close>.
\<close>

theorem insert_existing_key:
  assumes "at_hm hf t k = Inr v"
  shows "insert_hm hf k v2 t = (False, t)
    \<and> hm_size (snd (insert_hm hf k v2 t)) = hm_size t
    \<and> at_hm hf (snd (insert_hm hf k v2 t)) k = Inr v"
proof -
  from assms have "map_of (hm_map t ! get_hash_index hf t k) k \<noteq> None"
    by (auto simp: at_hm_def at_bucket_map_of split: option.splits)
  then have "key_in_bucket k (hm_map t ! get_hash_index hf t k)"
    by (simp add: map_of_eq_None_iff key_in_bucket_iff)
  then have "insert_hm hf k v2 t = (False, t)"
    by (simp add: insert_hm_def)
  with assms show ?thesis by simp
qed

theorem insert_existing_key_witness:
  "at_hm hash_int table_0_5 5 = Inr 7
   \<and> insert_hm hash_int 5 8 table_0_5 = (False, table_0_5)
   \<and> hm_size (snd (insert_hm hash_int 5 8 table_0_5)) = 2
   \<and> at_hm hash_int (snd (insert_hm hash_int 5 8 table_0_5)) 5 = Inr 7"
proof -
  have h: "at_hm hash_int table_0_5 5 = Inr 7" by code_simp
  have s: "hm_size table_0_5 = 2" by code_simp
  from insert_existing_key [OF h, of 8] h s show ?thesis by simp
qed

text \<open>
  C6. The claim is that two tables compare equal exactly when their sizes are equal and
  every entry of the left table has an equal entry in the right one. The code does not do
  this: \<open>operator==\<close> compares the sizes and then only the entries that the traversal of
  the left table visits, so entries in the left table's bucket 0 are never compared (lemma
  \<open>operator_eq_entries\<close>). Tables of one entry each that bind key 0 to different values,
  or that hold different keys, compare equal.
\<close>

theorem equality_misses_bucket_0:
  "at_hm hash_int table_0_1 0 = Inr 1
   \<and> at_hm hash_int table_0_2 0 = Inr 2
   \<and> operator_eq hash_int table_0_1 table_0_2 = Some True
   \<and> operator_neq hash_int table_0_1 table_0_2 = Some False
   \<and> at_hm hash_int table_1_9 0 = Inl KeyNotFound
   \<and> operator_eq hash_int table_0_1 table_1_9 = Some True"
  by code_simp

text \<open>
  C7. Thirteen pairs with distinct keys are inserted into a default-constructed table
  (capacity 16), whatever the hash function. Each of the first twelve calls returns
  \<open>true\<close> and only appends the pair and counts it: the capacity stays 16. The
  thirteenth call returns \<open>true\<close> and rehashes exactly once, from 16 to 32 buckets.
  Afterwards \<open>at\<close> returns for each of the thirteen keys the value inserted with it.
\<close>

theorem thirteen_inserts_grow_once:
  assumes "distinct (map fst kvs)" and "length kvs = 13"
  shows "(\<forall>n < 12.
            insert_hm hf (fst (kvs ! n)) (snd (kvs ! n)) (insert_each hf (take n kvs) HashMap)
              = (True, (push_element hf (kvs ! n) (insert_each hf (take n kvs) HashMap))
                         \<lparr>hm_size := int n + 1\<rparr>)
          \<and> hm_capacity (insert_each hf (take (Suc n) kvs) HashMap) = 16
          \<and> hm_size (insert_each hf (take (Suc n) kvs) HashMap) = int n + 1)
    \<and> insert_hm hf (fst (kvs ! 12)) (snd (kvs ! 12)) (insert_each hf (take 12 kvs) HashMap)
         = (True, resize_map hf 16
                    ((push_element hf (kvs ! 12) (insert_each hf (take 12 kvs) HashMap))
                       \<lparr>hm_size := 13, hm_capacity := 32\<rparr>))
    \<and> hm_capacity (insert_each hf kvs HashMap) = 32
    \<and> hm_size (insert_each hf kvs HashMap) = 13
    \<and> (\<forall>kv \<in> set kvs. at_hm hf (insert_each hf kvs HashMap) (fst kv) = Inr (snd kv))"
proof -
  let ?S = "\<lambda>n. insert_each hf (take n kvs) (HashMap :: ('a, 'b) hash_map)"
  have fresh: "invar hf (?S n) \<and> lookup (?S n) = map_of (take n kvs)
      \<and> hm_size (?S n) = int n" if "n \<le> 13" for n
  proof -
    from assms(1) have "distinct (map fst (take n kvs))"
      by (simp add: take_map [symmetric] distinct_take)
    moreover have "fst ` set (take n kvs) \<inter> dom (lookup (HashMap :: ('a, 'b) hash_map)) = {}"
      by (simp add: lookup_HashMap)
    ultimately have "lookup (?S n) = lookup HashMap ++ map_of (take n kvs)
        \<and> hm_size (?S n) = hm_size (HashMap :: ('a, 'b) hash_map) + int (length (take n kvs))"
      by (intro insert_each_fresh invar_HashMap)
    moreover have "hm_size (HashMap :: ('a, 'b) hash_map) = 0"
      by (simp add: HashMap_def INITIAL_SIZE_def)
    ultimately show ?thesis
      using that assms(2) by (simp add: lookup_HashMap invar_insert_each invar_HashMap)
  qed
  have absent: "\<not> contains_key hf (?S n) (fst (kvs ! n))" if "n < 13" for n
  proof -
    from that assms(2) have "take (Suc n) kvs = take n kvs @ [kvs ! n]"
      by (simp add: take_Suc_conv_app_nth)
    moreover from assms(1) have "distinct (map fst (take (Suc n) kvs))"
      by (simp add: take_map [symmetric] distinct_take)
    ultimately have "fst (kvs ! n) \<notin> fst ` set (take n kvs)" by simp
    with fresh [of n] that show ?thesis
      by (simp add: contains_key_lookup dom_map_of_conv_image_fst)
  qed
  have step: "?S (Suc n) = snd (insert_hm hf (fst (kvs ! n)) (snd (kvs ! n)) (?S n))"
    if "n < 13" for n
    using that assms(2) by (simp add: take_Suc_conv_app_nth insert_each_append)
  have cap: "hm_capacity (?S n) = 16" if "n \<le> 12" for n
    using that
  proof (induction n)
    case 0
    show ?case by (simp add: HashMap_def INITIAL_CAPACITY_def)
  next
    case (Suc n)
    let ?p = "(push_element hf (kvs ! n) (?S n))\<lparr>hm_size := hm_size (?S n) + 1\<rparr>"
    from Suc fresh [of n] have "4 * hm_size ?p \<le> 3 * int (hm_capacity ?p)" by simp
    then have "handle_resize hf True ?p = ?p" by (rule handle_resize_increase_within)
    with Suc absent [of n] step [of n] show ?case
      by (simp add: insert_hm_absent)
  qed
  have first12: "insert_hm hf (fst (kvs ! n)) (snd (kvs ! n)) (?S n)
      = (True, (push_element hf (kvs ! n) (?S n))\<lparr>hm_size := int n + 1\<rparr>)
      \<and> hm_capacity (?S (Suc n)) = 16 \<and> hm_size (?S (Suc n)) = int n + 1"
    if "n < 12" for n
  proof -
    let ?p = "(push_element hf (kvs ! n) (?S n))\<lparr>hm_size := hm_size (?S n) + 1\<rparr>"
    from that fresh [of n] cap [of n] have "4 * hm_size ?p \<le> 3 * int (hm_capacity ?p)"
      by simp
    then have "handle_resize hf True ?p = ?p" by (rule handle_resize_increase_within)
    with that absent [of n] fresh [of n] fresh [of "Suc n"] cap [of "Suc n"] show ?thesis
      by (simp add: insert_hm_absent)
  qed
  let ?p = "(push_element hf (kvs ! 12) (?S 12))\<lparr>hm_size := hm_size (?S 12) + 1\<rparr>"
  from fresh [of 12] cap [of 12]
  have "handle_resize hf True ?p
      = resize_map hf (hm_capacity ?p) (?p\<lparr>hm_capacity := hm_capacity ?p * 2\<rparr>)"
    by (intro handle_resize_increase_once) simp_all
  with fresh [of 12] cap [of 12] absent [of 12]
  have last: "insert_hm hf (fst (kvs ! 12)) (snd (kvs ! 12)) (?S 12)
      = (True, resize_map hf 16
           ((push_element hf (kvs ! 12) (?S 12))\<lparr>hm_size := 13, hm_capacity := 32\<rparr>))"
    by (simp add: insert_hm_absent)
  from assms(2) have all: "?S 13 = insert_each hf kvs HashMap" by simp
  from step [of 12] last have c13: "hm_capacity (?S 13) = 32" by simp
  from fresh [of 13] assms(2) have i13: "invar hf (insert_each hf kvs HashMap)"
    and l13: "lookup (insert_each hf kvs HashMap) = map_of kvs"
    and s13: "hm_size (insert_each hf kvs HashMap) = 13"
    by simp_all
  have "at_hm hf (insert_each hf kvs HashMap) (fst kv) = Inr (snd kv)" if "kv \<in> set kvs" for kv
  proof -
    from that have "(fst kv, snd kv) \<in> set kvs" by simp
    with assms(1) have "map_of kvs (fst kv) = Some (snd kv)"
      by (rule map_of_is_SomeI)
    then show ?thesis by (simp add: at_hm_lookup [OF i13] l13)
  qed
  with first12 last c13 s13 all show ?thesis by auto
qed

theorem thirteen_inserts_grow_once_witness:
  "distinct (map fst thirteen_pairs) \<and> length thirteen_pairs = 13
   \<and> hm_capacity (insert_each hash_int (take 12 thirteen_pairs) HashMap) = 16
   \<and> hm_size (insert_each hash_int (take 12 thirteen_pairs) HashMap) = 12
   \<and> hm_capacity (insert_each hash_int thirteen_pairs HashMap) = 32
   \<and> hm_size (insert_each hash_int thirteen_pairs HashMap) = 13
   \<and> at_hm hash_int (insert_each hash_int thirteen_pairs HashMap) 0 = Inr 100
   \<and> at_hm hash_int (insert_each hash_int thirteen_pairs HashMap) 12 = Inr 112"
proof -
  have d: "distinct (map fst thirteen_pairs)" by code_simp
  have l: "length thirteen_pairs = 13" by code_simp
  have m: "(0, 100) \<in> set thirteen_pairs" "(12, 112) \<in> set thirteen_pairs" by code_simp+
  note t = thirteen_inserts_grow_once [OF d l, of hash_int]
  from t [THEN conjunct1, rule_format, of 11]
  have "hm_capacity (insert_each hash_int (take 12 thirteen_pairs) HashMap) = 16
      \<and> hm_size (insert_each hash_int (take 12 thirteen_pairs) HashMap) = 12"
    by simp
  moreover from t have "hm_capacity (insert_each hash_int thirteen_pairs HashMap) = 32"
    and "hm_size (insert_each hash_int thirteen_pairs HashMap) = 13"
    by blast+
  moreover from t have a: "\<forall>kv \<in> set thirteen_pairs.
      at_hm hash_int (insert_each hash_int thirteen_pairs HashMap) (fst kv) = Inr (snd kv)"
    by blast
  from a m(1) have "at_hm hash_int (insert_each hash_int thirteen_pairs HashMap) 0 = Inr 100"
    by fastforce
  moreover from a m(2)
  have "at_hm hash_int (insert_each hash_int thirteen_pairs HashMap) 12 = Inr 112"
    by fastforce
  ultimately show ?thesis using d l by simp
qed

text \<open>
  C8. \<open>Dictionary::update\<close> returns normally for every well-formed dictionary and every
  sequence of pairs (the model is a total function with no error result). It handles the
  pairs one after the other, in order. For one pair \<open>(k, v)\<close>: when \<open>k\<close> is bound to
  \<open>v\<close> already the dictionary is not changed at all; when \<open>k\<close> is present the size
  stays and \<open>k\<close> is bound to \<open>v\<close> afterwards; when \<open>k\<close> is absent the pair is
  inserted as \<open>insert\<close> would and the size grows by one; every other key is bound as
  before. Over the whole sequence the dictionary ends as the map updated pair by pair.
\<close>

theorem Dictionary_update_merges:
  assumes "invar hf d"
  shows "Dictionary_update hf [] d = d
    \<and> Dictionary_update hf (it # its) d = Dictionary_update hf its (Dictionary_update hf [it] d)
    \<and> invar hf (Dictionary_update hf [(k, v)] d)
    \<and> (at_hm hf d k = Inr v \<longrightarrow> Dictionary_update hf [(k, v)] d = d)
    \<and> (contains_key hf d k \<longrightarrow>
          hm_size (Dictionary_update hf [(k, v)] d) = hm_size d
        \<and> at_hm hf (Dictionary_update hf [(k, v)] d) k = Inr v)
    \<and> (\<not> contains_key hf d k \<longrightarrow>
          Dictionary_update hf [(k, v)] d = snd (insert_hm hf k v d)
        \<and> fst (insert_hm hf k v d)
        \<and> hm_size (Dictionary_update hf [(k, v)] d) = hm_size d + 1
        \<and> at_hm hf (Dictionary_update hf [(k, v)] d) k = Inr v)
    \<and> (\<forall>k'. k' \<noteq> k \<longrightarrow> at_hm hf (Dictionary_update hf [(k, v)] d) k' = at_hm hf d k')
    \<and> invar hf (Dictionary_update hf its d)
    \<and> lookup (Dictionary_update hf its d) = fold (\<lambda>it m. m(fst it \<mapsto> snd it)) its (lookup d)"
proof -
  let ?d = "Dictionary_update hf [(k, v)] d"
  have one: "?d = overwrite_then_insert hf k v d"
    by (simp add: Dictionary_update_def)
  from overwrite_then_insert_invar [OF assms, of k v]
  have i: "invar hf ?d" and l: "lookup ?d = (lookup d)(k \<mapsto> v)"
    by (simp_all add: one)
  have at_k: "at_hm hf ?d k = Inr v"
    by (simp add: at_hm_lookup [OF i] l)
  have same: "?d = d" if "at_hm hf d k = Inr v"
    using assms that by (simp add: one overwrite_then_insert_same)
  have present: "hm_size ?d = hm_size d" if "contains_key hf d k"
  proof -
    from that assms have "k \<in> dom (lookup d)" by (simp add: contains_key_lookup)
    then have "dom (lookup ?d) = dom (lookup d)" by (auto simp: l)
    then show ?thesis by (simp add: size_lookup [OF i] size_lookup [OF assms])
  qed
  have absent: "?d = snd (insert_hm hf k v d) \<and> fst (insert_hm hf k v d)
      \<and> hm_size ?d = hm_size d + 1" if "\<not> contains_key hf d k"
    using that assms by (simp add: one overwrite_then_insert_absent insert_hm_new)
  have others: "at_hm hf ?d k' = at_hm hf d k'" if "k' \<noteq> k" for k'
    using that by (intro at_hm_of_lookup_eq [OF assms i]) (simp add: l)
  have seq: "Dictionary_update hf (it # its) d
      = Dictionary_update hf its (Dictionary_update hf [it] d)"
    by (simp add: Dictionary_update_def)
  from fold_overwrite_then_insert [OF assms, of its]
  have whole: "invar hf (Dictionary_update hf its d)"
    "lookup (Dictionary_update hf its d) = fold (\<lambda>it m. m(fst it \<mapsto> snd it)) its (lookup d)"
    by (simp_all add: Dictionary_update_def)
  have nil: "Dictionary_update hf [] d = d"
    by (simp add: Dictionary_update_def)
  from nil seq i same present at_k absent others whole show ?thesis
    by blast
qed

theorem Dictionary_update_merges_witness:
  "invar hash_string dict_abc
   \<and> at_hm hash_string dict_abc ''a'' = Inr ''1''
   \<and> contains_key hash_string dict_abc ''a''
   \<and> \<not> contains_key hash_string dict_abc ''z''
   \<and> Dictionary_update hash_string [(''a'', ''1'')] dict_abc = dict_abc
   \<and> hm_size dict_abc = 3
   \<and> hm_size (Dictionary_update hash_string [(''a'', ''9'')] dict_abc) = 3
   \<and> at_hm hash_string (Dictionary_update hash_string [(''a'', ''9'')] dict_abc) ''a'' = Inr ''9''
   \<and> at_hm hash_string (Dictionary_update hash_string [(''a'', ''9'')] dict_abc) ''b'' = Inr ''2''
   \<and> hm_size (Dictionary_update hash_string [(''z'', ''26'')] dict_abc) = 4
   \<and> at_hm hash_string (Dictionary_update hash_string [(''z'', ''26'')] dict_abc) ''z'' = Inr ''26''
   \<and> lookup (Dictionary_update hash_string [(''a'', ''9''), (''z'', ''26'')] dict_abc)
       = (lookup dict_abc)(''a'' \<mapsto> ''9'', ''z'' \<mapsto> ''26'')"
proof -
  have c: "at_hm hash_string dict_abc ''a'' = Inr ''1''"
    "at_hm hash_string dict_abc ''b'' = Inr ''2''"
    "contains_key hash_string dict_abc ''a''"
    "\<not> contains_key hash_string dict_abc ''z''"
    "hm_size dict_abc = 3"
    by code_simp+
  note same = Dictionary_update_merges [OF invar_dict_abc,
      of "(''a'', ''9'')" "[(''a'', ''9''), (''z'', ''26'')]" "''a''" "''1''"]
  note over = Dictionary_update_merges [OF invar_dict_abc,
      of "(''a'', ''9'')" "[(''a'', ''9''), (''z'', ''26'')]" "''a''" "''9''"]
  note fresh = Dictionary_update_merges [OF invar_dict_abc,
      of "(''a'', ''9'')" "[(''a'', ''9''), (''z'', ''26'')]" "''z''" "''26''"]
  from same c(1) have w1: "Dictionary_update hash_string [(''a'', ''1'')] dict_abc = dict_abc"
    by blast
  from over c(3)
  have w2: "hm_size (Dictionary_update hash_string [(''a'', ''9'')] dict_abc) = hm_size dict_abc"
    and w3: "at_hm hash_string (Dictionary_update hash_string [(''a'', ''9'')] dict_abc) ''a''
      = Inr ''9''"
    by blast+
  from over have "\<forall>k'. k' \<noteq> ''a'' \<longrightarrow>
      at_hm hash_string (Dictionary_update hash_string [(''a'', ''9'')] dict_abc) k'
      = at_hm hash_string dict_abc k'"
    by blast
  then have w4: "at_hm hash_string (Dictionary_update hash_string [(''a'', ''9'')] dict_abc) ''b''
      = at_hm hash_string dict_abc ''b''"
    by simp
  from fresh c(4)
  have w5: "hm_size (Dictionary_update hash_string [(''z'', ''26'')] dict_abc) = hm_size dict_abc + 1"
    and w6: "at_hm hash_string (Dictionary_update hash_string [(''z'', ''26'')] dict_abc) ''z''
      = Inr ''26''"
    by blast+
  from over
  have "lookup (Dictionary_update hash_string [(''a'', ''9''), (''z'', ''26'')] dict_abc)
      = fold (\<lambda>it m. m(fst it \<mapsto> snd it)) [(''a'', ''9''), (''z'', ''26'')] (lookup dict_abc)"
    by blast
  then have w7: "lookup (Dictionary_update hash_string [(''a'', ''9''), (''z'', ''26'')] dict_abc)
       = (lookup dict_abc)(''a'' \<mapsto> ''9'', ''z'' \<mapsto> ''26'')"
    by simp
  from w1 w2 w3 w4 w5 w6 w7 show ?thesis
    by (simp add: c invar_dict_abc)
qed

text \<open>
  C9. In a well-formed table, \<open>at (key)\<close> returns the value stored with the key when
  the key has an entry and throws the key-not-found error when it has none;
  \<open>bucket_size\<close> and \<open>bucket_index\<close> throw the same error in exactly that case
  (their first statement is the call of \<open>at\<close>) and otherwise return the length and
  the index of the key's bucket. All three are \<open>const\<close> member functions: they are
  functions of the table and return no table.
\<close>

theorem at_bucket_size_bucket_index:
  assumes "invar hf t"
  shows "(\<forall>v. (key, v) \<in> set (entries t) \<longrightarrow>
            at_hm hf t key = Inr v
          \<and> bucket_size hf t key = Inr (int (length (hm_map t ! get_hash_index hf t key)))
          \<and> bucket_index hf t key = Inr (int (get_hash_index hf t key)))
    \<and> (key \<notin> fst ` set (entries t) \<longrightarrow>
            at_hm hf t key = Inl KeyNotFound
          \<and> bucket_size hf t key = Inl KeyNotFound
          \<and> bucket_index hf t key = Inl KeyNotFound)
    \<and> (contains_key hf t key \<longleftrightarrow> key \<in> fst ` set (entries t))"
proof -
  from assms have p: "placed hf t" by (simp add: invar_def)
  have "at_hm hf t key = Inr v" if "(key, v) \<in> set (entries t)" for v
    using that assms by (simp add: at_hm_iff)
  moreover have "at_hm hf t key = Inl KeyNotFound" if "key \<notin> fst ` set (entries t)"
    using that p by (simp add: at_hm_absent)
  moreover note contains_key_iff [OF p, of key]
  ultimately show ?thesis
    by (simp add: bucket_size_def bucket_index_def Let_def)
qed

theorem at_bucket_size_bucket_index_witness:
  "invar hash_int table_0_5
   \<and> (5, 7) \<in> set (entries table_0_5)
   \<and> at_hm hash_int table_0_5 5 = Inr 7
   \<and> bucket_size hash_int table_0_5 5 = Inr 1
   \<and> bucket_index hash_int table_0_5 5 = Inr 5
   \<and> 3 \<notin> fst ` set (entries table_0_5)
   \<and> at_hm hash_int table_0_5 3 = Inl KeyNotFound
   \<and> bucket_size hash_int table_0_5 3 = Inl KeyNotFound
   \<and> bucket_index hash_int table_0_5 3 = Inl KeyNotFound
   \<and> contains_key hash_int table_0_5 5 \<and> \<not> contains_key hash_int table_0_5 3"
proof -
  have e: "entries table_0_5 = [(0, 1), (5, 7)]" by code_simp
  have i: "get_hash_index hash_int table_0_5 5 = 5" by code_simp
  have b: "hm_map table_0_5 ! 5 = [(5, 7)]" by code_simp
  from at_bucket_size_bucket_index [OF invar_table_0_5, of 5]
    at_bucket_size_bucket_index [OF invar_table_0_5, of 3]
  show ?thesis
    by (simp add: e i b invar_table_0_5)
qed

text \<open>
  C10. The two-vector constructor, given vectors of equal length (with or without repeated
  keys), returns a well-formed table and throws nothing. The table has exactly one entry
  for each distinct key of \<open>keys\<close>, its size is the number of distinct keys, and
  \<open>at\<close> of a key returns the value at the position of the key's last occurrence.
\<close>

theorem HashMap_vectors_duplicate_keys:
  assumes "length keys = length vals"
  shows "\<exists>t. HashMap_vectors hf keys vals = Inr t
    \<and> invar hf t
    \<and> distinct (map fst (entries t))
    \<and> fst ` set (entries t) = set keys
    \<and> hm_size t = int (card (set keys))
    \<and> (\<forall>i < length keys. (\<forall>j. i < j \<and> j < length keys \<longrightarrow> keys ! j \<noteq> keys ! i)
          \<longrightarrow> at_hm hf t (keys ! i) = Inr (vals ! i))"
proof -
  let ?t = "fold (\<lambda>it. overwrite_then_insert hf (fst it) (snd it)) (zip keys vals) HashMap"
  have r: "HashMap_vectors hf keys vals = Inr ?t"
    using assms by (rule HashMap_vectors_fold)
  from fold_overwrite_then_insert [OF invar_HashMap, of hf "zip keys vals"]
  have i: "invar hf ?t"
    and l: "lookup ?t = fold (\<lambda>it m. m(fst it \<mapsto> snd it)) (zip keys vals) Map.empty"
    by (simp_all add: lookup_HashMap)
  from i have d: "distinct (map fst (entries ?t))" by (simp add: invar_def)
  have "dom (lookup ?t) = fst ` set (zip keys vals)"
    by (simp only: l dom_fold_upd) simp
  also have "\<dots> = set keys"
    using assms by (metis map_fst_zip set_map)
  finally have dom: "dom (lookup ?t) = set keys" .
  then have k: "fst ` set (entries ?t) = set keys"
    by (simp add: lookup_def dom_map_of_conv_image_fst)
  from dom have s: "hm_size ?t = int (card (set keys))"
    by (simp add: size_lookup [OF i])
  have "at_hm hf ?t (keys ! i) = Inr (vals ! i)"
    if "i < length keys" and "\<forall>j. i < j \<and> j < length keys \<longrightarrow> keys ! j \<noteq> keys ! i" for i
  proof -
    from fold_upd_last [OF assms that, of Map.empty]
    have "lookup ?t (keys ! i) = Some (vals ! i)" by (simp only: l)
    then show ?thesis by (simp add: at_hm_lookup [OF i])
  qed
  with r i d k s show ?thesis by blast
qed

theorem HashMap_vectors_duplicate_keys_witness:
  "length [1, 2, 1, 17 :: int] = length [10, 20, 30, 40 :: int]
   \<and> (\<exists>t. HashMap_vectors hash_int [1, 2, 1, 17] [10, 20, 30, 40 :: int] = Inr t
        \<and> hm_size t = 3
        \<and> fst ` set (entries t) = {1, 2, 17}
        \<and> at_hm hash_int t 1 = Inr 30
        \<and> at_hm hash_int t 2 = Inr 20
        \<and> at_hm hash_int t 17 = Inr 40)"
proof -
  let ?keys = "[1, 2, 1, 17 :: int]" and ?vals = "[10, 20, 30, 40 :: int]"
  have len: "length ?keys = length ?vals" by simp
  from HashMap_vectors_duplicate_keys [OF len, of hash_int]
  obtain t where t: "HashMap_vectors hash_int ?keys ?vals = Inr t"
    and s: "hm_size t = int (card (set ?keys))"
    and k: "fst ` set (entries t) = set ?keys"
    and a: "\<forall>i < length ?keys. (\<forall>j. i < j \<and> j < length ?keys \<longrightarrow> ?keys ! j \<noteq> ?keys ! i)
          \<longrightarrow> at_hm hash_int t (?keys ! i) = Inr (?vals ! i)"
    by blast
  have last: "\<forall>j. i < j \<and> j < length ?keys \<longrightarrow> ?keys ! j \<noteq> ?keys ! i"
    if "i \<in> {1, 2, 3}" for i
    using that by (auto simp: nth_Cons split: nat.splits)
  from a [rule_format, of 1] last [of 1] have a1: "at_hm hash_int t 2 = Inr 20" by simp
  from a [rule_format, of 2] last [of 2] have a2: "at_hm hash_int t 1 = Inr 30" by simp
  from a [rule_format, of 3] last [of 3] have a3: "at_hm hash_int t 17 = Inr 40" by simp
  have "card (set ?keys) = 3" by code_simp
  with t s k a1 a2 a3 show ?thesis by auto
qed

end
